theory Spec2Isabelle
  imports Complex_Main
begin

section \<open>Numeric values\<close>

text \<open>
  The accumulators of \<^verbatim>\<open>online.py\<close> compute with floating-point numbers. They are
  modelled in exact arithmetic: a finite value is a real number. The one non-finite value the
  accumulators can produce from finite inputs is the result of dividing zero by a count of zero
  (an empty first batch), which numpy evaluates to NaN with a warning; NaN is kept as a value
  of its own and is contagious, as in IEEE arithmetic. (A finite non-zero numerator over zero
  would be an infinity. The accumulators never form one: a count of zero means that no value
  has been seen, so the numerator is zero or NaN already.)
\<close>

datatype npfloat = Fin real | NaN

fun np_bin :: "(real \<Rightarrow> real \<Rightarrow> real) \<Rightarrow> npfloat \<Rightarrow> npfloat \<Rightarrow> npfloat" where
  "np_bin f (Fin x) (Fin y) = Fin (f x y)"
| "np_bin f _ _ = NaN"

definition np_add :: "npfloat \<Rightarrow> npfloat \<Rightarrow> npfloat" where
  "np_add = np_bin (+)"

definition np_sub :: "npfloat \<Rightarrow> npfloat \<Rightarrow> npfloat" where
  "np_sub = np_bin (-)"

definition np_mul :: "npfloat \<Rightarrow> npfloat \<Rightarrow> npfloat" where
  "np_mul = np_bin (*)"

fun np_div :: "npfloat \<Rightarrow> npfloat \<Rightarrow> npfloat" where
  "np_div (Fin x) (Fin y) = (if y = 0 then NaN else Fin (x / y))"
| "np_div _ _ = NaN"

fun np_sqrt :: "npfloat \<Rightarrow> npfloat" where
  "np_sqrt (Fin x) = (if x < 0 then NaN else Fin (sqrt x))"
| "np_sqrt NaN = NaN"

definition of_count :: "nat \<Rightarrow> npfloat" where
  "of_count n = Fin (real n)"

definition np_sum :: "npfloat list \<Rightarrow> npfloat" where
  "np_sum xs = foldl np_add (Fin 0) xs"

text \<open>
  A value handed to an accumulator is a scalar or a one-dimensional array (a batch of
  scalars), with or without a unit tag (\<^verbatim>\<open>pq.Quantity\<close>). Unit tags are opaque names.
\<close>

type_synonym units = string

datatype magnitude = Scalar real | Array "real list"

datatype 'a tagged = Untagged 'a | Quantity 'a units

fun units_of :: "'a tagged \<Rightarrow> units option" where
  "units_of (Untagged v) = None"
| "units_of (Quantity v u) = Some u"

fun magnitude_of :: "'a tagged \<Rightarrow> 'a" where
  "magnitude_of (Untagged v) = v"
| "magnitude_of (Quantity v u) = v"

text \<open>
  Exceptions are values. \<open>ArrayValuedSample\<close> is not an exception of the program: it marks
  the one use this model does not cover, an array handed to an accumulator that is not in
  batch mode (the program then averages the array elementwise, as one array-valued sample).
\<close>

datatype error =
    ValueError string
  | TypeError string
  | IndexError string
  | AttributeError string
  | ZeroDivisionError
  | ArrayValuedSample

section \<open>MeanOnline\<close>

record mean_online =
  mean :: "npfloat option"
  count :: nat
  units :: "units option"
  batch_mode :: bool

definition MeanOnline :: "bool \<Rightarrow> mean_online" where
  "MeanOnline b = \<lparr>mean = None, count = 0, units = None, batch_mode = b\<rparr>"

text \<open>\<^verbatim>\<open>batch_size\<close> and \<^verbatim>\<open>new_val_sum\<close> of \<^verbatim>\<open>MeanOnline.update\<close> (lines 21 to 26).\<close>

fun batch_size_and_sum :: "bool \<Rightarrow> magnitude \<Rightarrow> error + (nat \<times> npfloat)" where
  "batch_size_and_sum True (Array xs) = Inr (length xs, Fin (sum_list xs))"
| "batch_size_and_sum True (Scalar x) = Inl (AttributeError ''shape'')"
| "batch_size_and_sum False (Scalar x) = Inr (1, Fin x)"
| "batch_size_and_sum False (Array xs) = Inl ArrayValuedSample"

definition units_msg :: string where
  "units_msg = ''Each batch must have the same units.''"

definition update :: "mean_online \<Rightarrow> magnitude tagged \<Rightarrow> error + mean_online" where
  "update s new_val =
     (let u = units_of new_val in
      case batch_size_and_sum (batch_mode s) (magnitude_of new_val) of
        Inl e \<Rightarrow> Inl e
      | Inr (batch_size, new_val_sum) \<Rightarrow>
          (let c = count s + batch_size in
           case mean s of
             None \<Rightarrow>
               Inr (s\<lparr>count := c,
                     mean := Some (np_div new_val_sum (of_count batch_size)),
                     units := u\<rparr>)
           | Some m \<Rightarrow>
               if u \<noteq> units s then Inl (ValueError units_msg)
               else Inr (s\<lparr>count := c,
                          mean := Some (np_add m
                            (np_div (np_sub new_val_sum (np_mul m (of_count batch_size)))
                                    (of_count c)))\<rparr>)))"

definition as_units :: "units option \<Rightarrow> 'a \<Rightarrow> 'a tagged" where
  "as_units u val = (case u of None \<Rightarrow> Untagged val | Some t \<Rightarrow> Quantity val t)"

definition get_mean :: "mean_online \<Rightarrow> npfloat option tagged" where
  "get_mean s = as_units (units s) (mean s)"

definition reset :: "mean_online \<Rightarrow> mean_online" where
  "reset s = s\<lparr>mean := None, count := 0, units := None\<rparr>"

text \<open>A sequence of \<^verbatim>\<open>update\<close> calls on one accumulator; the first exception ends it.\<close>

fun updates :: "mean_online \<Rightarrow> magnitude tagged list \<Rightarrow> error + mean_online" where
  "updates s [] = Inr s"
| "updates s (v # vs) = (case update s v of Inl e \<Rightarrow> Inl e | Inr s' \<Rightarrow> updates s' vs)"

text \<open>The individual values an update carries.\<close>

fun values_of :: "magnitude \<Rightarrow> real list" where
  "values_of (Scalar x) = [x]"
| "values_of (Array xs) = xs"

definition seen :: "magnitude tagged list \<Rightarrow> real list" where
  "seen vs = concat (map (values_of \<circ> magnitude_of) vs)"

text \<open>An update has the shape its accumulator's mode expects.\<close>

fun shaped :: "bool \<Rightarrow> magnitude \<Rightarrow> bool" where
  "shaped True (Array xs) = True"
| "shaped False (Scalar x) = True"
| "shaped _ _ = False"

section \<open>VarianceOnline\<close>

record variance_online = mean_online +
  variance_sum :: npfloat

definition VarianceOnline :: "bool \<Rightarrow> variance_online" where
  "VarianceOnline b =
     \<lparr>mean = None, count = 0, units = None, batch_mode = b, variance_sum = Fin 0\<rparr>"

text \<open>
  \<^verbatim>\<open>VarianceOnline.update\<close>. The first update seeds the mean and the sum of squared
  deviations with zero; later ones check the unit tag. \<open>m0\<close> is the mean before the
  update, \<open>m1\<close> the mean after it.
\<close>

definition var_update :: "variance_online \<Rightarrow> magnitude tagged \<Rightarrow> error + variance_online" where
  "var_update s new_val =
     (let u = units_of new_val in
      case (case mean s of
              None \<Rightarrow> Inr (s\<lparr>mean := Some (Fin 0), units := u, variance_sum := Fin 0\<rparr>, Fin 0)
            | Some m \<Rightarrow> if u \<noteq> units s then Inl (ValueError units_msg) else Inr (s, m)) of
        Inl e \<Rightarrow> Inl e
      | Inr (s0, m0) \<Rightarrow>
          (case magnitude_of new_val of
             Array xs \<Rightarrow>
               if batch_mode s0 then
                 (let delta_var = map (\<lambda>x. np_sub (Fin x) m0) xs;
                      batch_size = length xs;
                      c = count s0 + batch_size;
                      delta_mean = np_sub (Fin (sum_list xs)) (np_mul m0 (of_count batch_size));
                      m1 = np_add m0 (np_div delta_mean (of_count c));
                      delta_var2 = map2 np_mul delta_var (map (\<lambda>x. np_sub (Fin x) m1) xs)
                  in Inr (s0\<lparr>count := c, mean := Some m1,
                            variance_sum := np_add (variance_sum s0) (np_sum delta_var2)\<rparr>))
               else Inl ArrayValuedSample
           | Scalar x \<Rightarrow>
               if batch_mode s0 then Inl (AttributeError ''shape'')
               else
                 (let delta_var = np_sub (Fin x) m0;
                      c = count s0 + 1;
                      m1 = np_add m0 (np_div delta_var (of_count c));
                      delta_var2 = np_mul delta_var (np_sub (Fin x) m1)
                  in Inr (s0\<lparr>count := c, mean := Some m1,
                            variance_sum := np_add (variance_sum s0) delta_var2\<rparr>))))"

text \<open>
  \<^verbatim>\<open>get_mean_std\<close> returns the pair \<^verbatim>\<open>(None, None)\<close> before the first update, modelled
  as \<open>None\<close>, and otherwise the pair of the mean and the standard deviation.
\<close>

definition get_mean_std :: "variance_online \<Rightarrow> bool \<Rightarrow> (npfloat tagged \<times> npfloat tagged) option" where
  "get_mean_std s unbiased =
     (case mean s of
        None \<Rightarrow> None
      | Some m \<Rightarrow>
          (let std = (if count s > 1
                      then np_sqrt (np_div (variance_sum s)
                             (of_count (if unbiased then count s - 1 else count s)))
                      else Fin 0)
           in Some (as_units (units s) m, as_units (units s) std)))"

definition var_reset :: "variance_online \<Rightarrow> variance_online" where
  "var_reset s = s\<lparr>mean := None, count := 0, units := None, variance_sum := Fin 0\<rparr>"

fun var_updates :: "variance_online \<Rightarrow> magnitude tagged list \<Rightarrow> error + variance_online" where
  "var_updates s [] = Inr s"
| "var_updates s (v # vs) =
     (case var_update s v of Inl e \<Rightarrow> Inl e | Inr s' \<Rightarrow> var_updates s' vs)"

section \<open>InterSpikeIntervalOnline\<close>

text \<open>
  Times and intervals are finite reals. \<^verbatim>\<open>int(x)\<close> truncates towards zero.
  \<^verbatim>\<open>np.linspace\<close> places \<open>num\<close> points evenly from \<open>start\<close> to \<open>stop\<close>, both
  included, and refuses a negative \<open>num\<close>. \<^verbatim>\<open>np.histogram\<close> with an array of bin edges
  refuses edges that decrease; its bins are half-open, except the last one, which includes its
  right edge; values outside the edges are counted nowhere.
\<close>

definition py_int :: "real \<Rightarrow> int" where
  "py_int x = (if 0 \<le> x then \<lfloor>x\<rfloor> else \<lceil>x\<rceil>)"

definition np_linspace :: "real \<Rightarrow> real \<Rightarrow> int \<Rightarrow> error + real list" where
  "np_linspace start stop num =
     (if num < 0 then Inl (ValueError ''Number of samples must be non-negative.'')
      else if num = 1 then Inr [start]
      else Inr (map (\<lambda>i. start + real i * ((stop - start) / real (nat num - 1))) [0..<nat num]))"

definition in_bin :: "real list \<Rightarrow> nat \<Rightarrow> real \<Rightarrow> bool" where
  "in_bin edges i x =
     (edges ! i \<le> x \<and>
      (if i + 2 = length edges then x \<le> edges ! (i + 1) else x < edges ! (i + 1)))"

definition np_histogram :: "real list \<Rightarrow> real list \<Rightarrow> error + nat list" where
  "np_histogram a bins =
     (if \<not> sorted bins then Inl (ValueError ''bins must increase monotonically'')
      else Inr (map (\<lambda>i. length (filter (in_bin bins i) a)) [0..<length bins - 1]))"

text \<open>
  Modelled from the spec: \<^verbatim>\<open>elephant.statistics.isi\<close>, imported by \<^verbatim>\<open>online.py\<close> and used
  in batch mode only; its source is not part of the files at hand. The spec: the intervals
  between consecutive events of the batch, N - 1 intervals for N events.
\<close>

definition isi :: "real list \<Rightarrow> real list" where
  "isi xs = map2 (\<lambda>a b. b - a) xs (tl xs)"

record isi_online =
  max_isi_value :: real
  last_spike_time :: "real option"
  bin_size :: real
  num_bins :: nat
  bin_edges :: "real list"
  current_isi_histogram :: "nat list"
  bach_mode :: bool
  isi_units :: "units option"

definition InterSpikeIntervalOnline :: "real \<Rightarrow> real \<Rightarrow> bool \<Rightarrow> error + isi_online" where
  "InterSpikeIntervalOnline bs max_isi b =
     (if bs = 0 then Inl ZeroDivisionError
      else
        (let n = py_int (max_isi / bs) in
         case np_linspace 0 max_isi (n + 1) of
           Inl e \<Rightarrow> Inl e
         | Inr edges \<Rightarrow>
             if n < 0 then Inl (ValueError ''negative dimensions are not allowed'')
             else Inr \<lparr>max_isi_value = max_isi, last_spike_time = None, bin_size = bs,
                       num_bins = nat n, bin_edges = edges,
                       current_isi_histogram = replicate (nat n) 0,
                       bach_mode = b, isi_units = None\<rparr>))"

text \<open>
  The intervals an update contributes and the event it leaves as \<^verbatim>\<open>last_spike_time\<close>
  (lines 115 to 131, without the unit check). In batch mode \<^verbatim>\<open>new_val[-1]\<close> needs a non-empty
  batch, and a scalar fails: in the first update where the intervals are taken, in a later
  one where its last element is read.
\<close>

fun new_isi_and_last :: "bool \<Rightarrow> real option \<Rightarrow> magnitude \<Rightarrow> error + (real list \<times> real)" where
  "new_isi_and_last True None (Array xs) =
     (if xs = [] then Inl (IndexError ''index -1 is out of bounds'') else Inr (isi xs, last xs))"
| "new_isi_and_last True (Some t) (Array xs) =
     (if xs = [] then Inl (IndexError ''index -1 is out of bounds'')
      else Inr (isi (t # xs), last xs))"
| "new_isi_and_last True None (Scalar x) = Inl (ValueError ''diff requires an array'')"
| "new_isi_and_last True (Some t) (Scalar x) = Inl (TypeError ''object is not subscriptable'')"
| "new_isi_and_last False None (Scalar x) = Inr ([], x)"
| "new_isi_and_last False (Some t) (Scalar x) = Inr ([x - t], x)"
| "new_isi_and_last False _ (Array xs) = Inl ArrayValuedSample"

definition isi_update :: "isi_online \<Rightarrow> magnitude tagged \<Rightarrow> error + isi_online" where
  "isi_update s new_val =
     (let u = units_of new_val in
      if last_spike_time s \<noteq> None \<and> u \<noteq> isi_units s then Inl (ValueError units_msg)
      else
        case new_isi_and_last (bach_mode s) (last_spike_time s) (magnitude_of new_val) of
          Inl e \<Rightarrow> Inl e
        | Inr (new_isi, t) \<Rightarrow>
            (case np_histogram new_isi (bin_edges s) of
               Inl e \<Rightarrow> Inl e
             | Inr isi_hist \<Rightarrow>
                 Inr (s\<lparr>last_spike_time := Some t,
                        isi_units := (if last_spike_time s = None then u else isi_units s),
                        current_isi_histogram :=
                          map2 (+) (current_isi_histogram s) isi_hist\<rparr>)))"

definition get_isi :: "isi_online \<Rightarrow> nat list tagged" where
  "get_isi s = as_units (isi_units s) (current_isi_histogram s)"

definition isi_reset :: "isi_online \<Rightarrow> isi_online" where
  "isi_reset s = s\<lparr>last_spike_time := None, isi_units := None,
                    current_isi_histogram := replicate (num_bins s) 0\<rparr>"

fun isi_updates :: "isi_online \<Rightarrow> magnitude tagged list \<Rightarrow> error + isi_online" where
  "isi_updates s [] = Inr s"
| "isi_updates s (v # vs) =
     (case isi_update s v of Inl e \<Rightarrow> Inl e | Inr s' \<Rightarrow> isi_updates s' vs)"

section \<open>Spike trains and epochs\<close>

text \<open>
  A \<^verbatim>\<open>neo.SpikeTrain\<close> carries its spike times, its start and stop time and, once
  \<^verbatim>\<open>detect_synchrofacts\<close> has annotated it, one complexity value per spike
  (\<^verbatim>\<open>array_annotations['complexity']\<close>). All times are finite reals in one common unit.
  An element of the list handed to the functions below is a spike train or some other
  object. The references from a spike train to its unit and its segment belong to the
  object store of the section on \<^verbatim>\<open>detect_synchrofacts\<close>, the only function that follows
  them.
\<close>

record spiketrain =
  spike_times :: "real list"
  t_start :: real
  t_stop :: real
  complexity :: "nat list option"

datatype obj = SpikeTrain spiketrain | Other

record epoch =
  ep_times :: "real list"
  ep_durations :: "real list"
  ep_complexity :: "nat list"

definition empty_msg :: string where
  "empty_msg = ''The spiketrains should not be empty!''"

definition instance_msg :: string where
  "instance_msg = ''spike train must be instance of :class:`SpikeTrain` of Neo!''"

definition t_start_msg :: string where
  "t_start_msg = ''the spike trains must have the same t_start!''"

definition t_stop_msg :: string where
  "t_stop_msg = ''the spike trains must have the same t_stop!''"

definition deletion_msg :: string where
  "deletion_msg = ''A deletion_threshold <= 1 would resultin deletion of all spikes.''"

text \<open>
  The loop of \<^verbatim>\<open>_check_consistency_of_spiketrainlist\<close>; \<open>first\<close> is
  \<^verbatim>\<open>spiketrains[0]\<close>, whose start and stop time are read only when the optional
  arguments are \<^verbatim>\<open>None\<close>.
\<close>

fun check_each :: "obj \<Rightarrow> obj list \<Rightarrow> real option \<Rightarrow> real option \<Rightarrow> error + unit" where
  "check_each first [] ts te = Inr ()"
| "check_each first (Other # xs) ts te = Inl (TypeError instance_msg)"
| "check_each first (SpikeTrain st # xs) ts te =
     (case first of
        Other \<Rightarrow>
          if ts = None then Inl (AttributeError ''t_start'')
          else if te = None then Inl (AttributeError ''t_stop'')
          else check_each first xs ts te
      | SpikeTrain st0 \<Rightarrow>
          if ts = None \<and> \<not> t_start st = t_start st0 then Inl (ValueError t_start_msg)
          else if te = None \<and> \<not> t_stop st = t_stop st0 then Inl (ValueError t_stop_msg)
          else check_each first xs ts te)"

definition check_consistency_of_spiketrainlist ::
    "obj list \<Rightarrow> real option \<Rightarrow> real option \<Rightarrow> error + unit" where
  "check_consistency_of_spiketrainlist spiketrains ts te =
     (case spiketrains of
        [] \<Rightarrow> Inl (ValueError empty_msg)
      | first # _ \<Rightarrow> check_each first spiketrains ts te)"

section \<open>Binning\<close>

text \<open>
  Modelled from the spec: \<^verbatim>\<open>elephant.conversion.BinnedSpikeTrain\<close>, which
  \<^verbatim>\<open>precise_complexity_intervals\<close> calls and whose source is not part of the files at hand.
  The spec: the streams are binned jointly into a shared time axis of bins of one fixed
  width; the collaborator returns the occurrence matrix (streams by time bins) and the
  sequence of bin edges; a stop time earlier than the start time is an error. Here the axis
  runs from the common start time in as many whole bins as fit before the common stop time,
  bin \<open>j\<close> is the half-open interval from edge \<open>j\<close> to edge \<open>j + 1\<close>, an entry of the
  matrix counts the spikes of one stream in one bin, and a bin width that is not positive is
  refused.
\<close>

record binned =
  bst_num_bins :: nat
  bst_bin_edges :: "real list"
  bst_matrix :: "nat list list"

definition bin_edge :: "real \<Rightarrow> real \<Rightarrow> nat \<Rightarrow> real" where
  "bin_edge t0 binsize j = t0 + real j * binsize"

definition bin_row :: "real \<Rightarrow> real \<Rightarrow> nat \<Rightarrow> real list \<Rightarrow> nat list" where
  "bin_row t0 binsize n ts =
     map (\<lambda>j. length (filter (\<lambda>t. bin_edge t0 binsize j \<le> t \<and> t < bin_edge t0 binsize (j + 1)) ts))
       [0..<n]"

definition BinnedSpikeTrain :: "spiketrain list \<Rightarrow> real \<Rightarrow> error + binned" where
  "BinnedSpikeTrain spiketrains binsize =
     (case spiketrains of
        [] \<Rightarrow> Inl (ValueError ''no spike trains'')
      | st0 # _ \<Rightarrow>
          if binsize \<le> 0 then Inl (ValueError ''binsize must be positive'')
          else if t_stop st0 < t_start st0 then Inl (ValueError ''t_stop is smaller than t_start'')
          else
            (let n = nat \<lfloor>(t_stop st0 - t_start st0) / binsize\<rfloor> in
             Inr \<lparr>bst_num_bins = n,
                   bst_bin_edges = map (bin_edge (t_start st0) binsize) [0..<Suc n],
                   bst_matrix = map (\<lambda>st. bin_row (t_start st0) binsize n (spike_times st))
                                  spiketrains\<rparr>))"

text \<open>
  \<^verbatim>\<open>bst.to_sparse_array().sum(axis=0)\<close>: the sum of every column of the matrix, one per
  bin.
\<close>

definition column_sums :: "nat \<Rightarrow> nat list list \<Rightarrow> nat list" where
  "column_sums n m = map (\<lambda>j. sum_list (map (\<lambda>row. row ! j) m)) [0..<n]"

section \<open>Array primitives\<close>

text \<open>
  A numpy slice \<^verbatim>\<open>a[lo:hi]\<close> with \<open>lo \<le> hi\<close> is cut off at the end of the array.
  Reading one index and reading a list of indices raise IndexError out of range.
  \<^verbatim>\<open>np.nonzero(a)[0]\<close> lists the indices of the non-zero entries in increasing order.
  \<^verbatim>\<open>np.searchsorted(a, v)\<close> (side left) returns, for a sorted array, the number of its
  entries that are strictly less than \<open>v\<close>.
\<close>

definition slice :: "'a list \<Rightarrow> nat \<Rightarrow> nat \<Rightarrow> 'a list" where
  "slice a lo hi = drop lo (take hi a)"

definition np_index :: "'a list \<Rightarrow> nat \<Rightarrow> error + 'a" where
  "np_index a i = (if i < length a then Inr (a ! i) else Inl (IndexError ''index out of bounds''))"

definition np_take :: "'a list \<Rightarrow> nat list \<Rightarrow> error + 'a list" where
  "np_take a idx =
     (if list_all (\<lambda>i. i < length a) idx then Inr (map ((!) a) idx)
      else Inl (IndexError ''index out of bounds''))"

definition nonzero :: "nat list \<Rightarrow> nat list" where
  "nonzero a = filter (\<lambda>j. a ! j \<noteq> 0) [0..<length a]"

definition searchsorted :: "real list \<Rightarrow> real \<Rightarrow> nat" where
  "searchsorted a v = length (takeWhile (\<lambda>e. e < v) a)"

definition select :: "'a list \<Rightarrow> bool list \<Rightarrow> 'a list" where
  "select a keep = map fst (filter snd (zip a keep))"

section \<open>precise\_complexity\_intervals\<close>

text \<open>\<^verbatim>\<open>np.nonzero(current_window)[0][-1]\<close>, which raises IndexError when no entry is non-zero.\<close>

definition last_nonzero :: "nat list \<Rightarrow> error + nat" where
  "last_nonzero a =
     (case nonzero a of
        [] \<Rightarrow> Inl (IndexError ''index -1 is out of bounds for axis 0 with size 0'')
      | k # ks \<Rightarrow> Inr (last (k # ks)))"

text \<open>
  The inner loop (lines 279 to 285). Its state is \<^verbatim>\<open>last_nonzero_index\<close>,
  \<^verbatim>\<open>current_window\<close>, \<^verbatim>\<open>last_window_sum\<close> and \<^verbatim>\<open>window_sum\<close>; it returns the first and
  the last of them, which are what the code after the loop reads.
\<close>

function grow_window ::
    "nat list \<Rightarrow> nat \<Rightarrow> nat \<Rightarrow> nat \<Rightarrow> nat list \<Rightarrow> nat \<Rightarrow> nat \<Rightarrow> error + (nat \<times> nat)" where
  "grow_window bincount i spread last_nonzero_index current_window last_window_sum window_sum =
     (if window_sum > last_window_sum then
        (case last_nonzero current_window of
           Inl e \<Rightarrow> Inl e
         | Inr k \<Rightarrow>
             (let w = slice bincount i (i + k + spread + 1) in
              grow_window bincount i spread k w window_sum (sum_list w)))
      else Inr (last_nonzero_index, window_sum))"
  by pat_completeness auto
termination
proof (relation "measure (\<lambda>(bincount, i, spread, lni, cw, lws, ws).
                    if ws > lws then Suc (sum_list bincount - ws) else 0)", goal_cases)
  case 1
  then show ?case by simp
next
  case (2 bincount i spread lni cw lws ws k w)
  let ?hi = "i + k + spread + 1"
  have "sum_list (take ?hi bincount) =
          sum_list (take i (take ?hi bincount)) + sum_list (drop i (take ?hi bincount))"
    by (metis append_take_drop_id sum_list_append)
  moreover have "sum_list bincount = sum_list (take ?hi bincount) + sum_list (drop ?hi bincount)"
    by (metis append_take_drop_id sum_list_append)
  ultimately have "sum_list w \<le> sum_list bincount"
    using 2 by (simp add: slice_def)
  then show ?case using 2 by auto
qed

declare grow_window.simps [simp del]

text \<open>
  The outer loop (lines 270 to 293), with the three result lists as accumulators.
  \<open>edges\<close> is \<^verbatim>\<open>bst.bin_edges\<close>.
\<close>

function scan ::
    "nat list \<Rightarrow> real list \<Rightarrow> nat \<Rightarrow> nat \<Rightarrow> nat list \<Rightarrow> real list \<Rightarrow> real list
      \<Rightarrow> error + (nat list \<times> real list \<times> real list)" where
  "scan bincount edges spread i complexities left_edges right_edges =
     (if i < length bincount then
        (let current_bincount = bincount ! i in
         if current_bincount = 0
         then scan bincount edges spread (i + 1) complexities left_edges right_edges
         else
           (let current_window = slice bincount i (i + spread + 1) in
            case grow_window bincount i spread 0 current_window current_bincount
                   (sum_list current_window) of
              Inl e \<Rightarrow> Inl e
            | Inr (last_nonzero_index, window_sum) \<Rightarrow>
                (case np_index edges i of
                   Inl e \<Rightarrow> Inl e
                 | Inr l \<Rightarrow>
                     (case np_index edges (i + last_nonzero_index + 1) of
                        Inl e \<Rightarrow> Inl e
                      | Inr r \<Rightarrow>
                          scan bincount edges spread (i + last_nonzero_index + 1)
                            (complexities @ [window_sum]) (left_edges @ [l])
                            (right_edges @ [r])))))
      else Inr (complexities, left_edges, right_edges))"
  by pat_completeness auto
termination
  by (relation "measure (\<lambda>(bincount, edges, spread, i, cs, ls, rs). length bincount - i)") auto

declare scan.simps [simp del]

text \<open>The branch for \<^verbatim>\<open>spread == 0\<close> (lines 261 to 264).\<close>

definition spread0 :: "nat list \<Rightarrow> real list \<Rightarrow> error + (nat list \<times> real list \<times> real list)" where
  "spread0 bincount edges =
     (let bin_indices = nonzero bincount in
      case np_take bincount bin_indices of
        Inl e \<Rightarrow> Inl e
      | Inr complexities \<Rightarrow>
          (case np_take edges bin_indices of
             Inl e \<Rightarrow> Inl e
           | Inr left_edges \<Rightarrow>
               (case np_take edges (map (\<lambda>j. j + 1) bin_indices) of
                  Inl e \<Rightarrow> Inl e
                | Inr right_edges \<Rightarrow> Inr (complexities, left_edges, right_edges))))"

fun spiketrains_of :: "obj list \<Rightarrow> spiketrain list" where
  "spiketrains_of [] = []"
| "spiketrains_of (SpikeTrain st # xs) = st # spiketrains_of xs"
| "spiketrains_of (Other # xs) = spiketrains_of xs"

text \<open>\<^verbatim>\<open>min([st.t_start for st in spiketrains])\<close>, of a list that is not empty.\<close>

fun min_t_start :: "spiketrain list \<Rightarrow> error + real" where
  "min_t_start [] = Inl (ValueError ''min() arg is an empty sequence'')"
| "min_t_start (st # sts) = Inr (foldl min (t_start st) (map t_start sts))"

text \<open>
  Lines 300 to 314: both lists of edges are moved back by half a bin, the first left edge is
  replaced by the minimum of itself and the earliest start time (which needs a first left
  edge to exist), and the epoch is assembled.
\<close>

definition make_epoch ::
    "real \<Rightarrow> real \<Rightarrow> nat list \<Rightarrow> real list \<Rightarrow> real list \<Rightarrow> error + epoch" where
  "make_epoch bin_shift min_start complexities left_edges right_edges =
     (let left = map (\<lambda>x. x - bin_shift) left_edges;
          right = map (\<lambda>x. x - bin_shift) right_edges
      in case left of
           [] \<Rightarrow> Inl (IndexError ''index 0 is out of bounds for axis 0 with size 0'')
         | l0 # ls \<Rightarrow>
             (let left2 = min min_start l0 # ls in
              Inr \<lparr>ep_times = left2,
                    ep_durations = map2 (-) right left2,
                    ep_complexity = complexities\<rparr>))"

text \<open>
  \<^verbatim>\<open>precise_complexity_intervals\<close>. \<open>spread\<close> is a natural number. The array of counts
  is squeezed (line 258): the counts of a single bin become a zero-dimensional array, on
  which \<^verbatim>\<open>len\<close> raises TypeError (\<open>spread > 0\<close>) and indexing by an index array raises
  IndexError (\<open>spread = 0\<close>).
\<close>

definition precise_complexity_intervals :: "obj list \<Rightarrow> real \<Rightarrow> nat \<Rightarrow> error + epoch" where
  "precise_complexity_intervals spiketrains sampling_rate spread =
     (case check_consistency_of_spiketrainlist spiketrains None None of
        Inl e \<Rightarrow> Inl e
      | Inr _ \<Rightarrow>
          (let bin_size = 1 / sampling_rate in
           case BinnedSpikeTrain (spiketrains_of spiketrains) bin_size of
             Inl e \<Rightarrow> Inl e
           | Inr bst \<Rightarrow>
               (let bincount = column_sums (bst_num_bins bst) (bst_matrix bst) in
                case (if spread = 0
                      then (if length bincount = 1
                            then Inl (IndexError ''too many indices for array'')
                            else spread0 bincount (bst_bin_edges bst))
                      else (if length bincount = 1
                            then Inl (TypeError ''len() of unsized object'')
                            else scan bincount (bst_bin_edges bst) spread 0 [] [] [])) of
                  Inl e \<Rightarrow> Inl e
                | Inr (complexities, left_edges, right_edges) \<Rightarrow>
                    (let bin_shift = (1 / 2) / sampling_rate in
                     case min_t_start (spiketrains_of spiketrains) of
                       Inl e \<Rightarrow> Inl e
                     | Inr min_start \<Rightarrow>
                         make_epoch bin_shift min_start complexities left_edges right_edges))))"

section \<open>detect\_synchrofacts\<close>

text \<open>
  \<^verbatim>\<open>detect_synchrofacts\<close> changes objects that its caller shares: it annotates the spike
  trains, writes into the list it is given and into the lists of the units and segments that
  own the spike trains. So it runs on a store. A reference names an object; \<open>objects\<close> gives
  the spike train (or other object) at a reference, \<open>lists\<close> the elements of the list
  object at a reference, and \<open>unit_of\<close> and \<open>segment_of\<close> the attributes \<^verbatim>\<open>unit\<close> and
  \<^verbatim>\<open>segment\<close> of a spike train, where a unit or segment is represented by the reference of
  its list \<^verbatim>\<open>spiketrains\<close>, the only part of it that is used. The list handed to the
  function may be the very list of a unit or segment: then both are one reference. A new
  object gets the reference \<open>next_ref\<close>.
\<close>

type_synonym ref = nat

record store =
  objects :: "ref \<Rightarrow> obj"
  lists :: "ref \<Rightarrow> ref list"
  unit_of :: "ref \<Rightarrow> ref option"
  segment_of :: "ref \<Rightarrow> ref option"
  next_ref :: ref

text \<open>
  \<^verbatim>\<open>_get_index\<close> (lines 16 to 19): the first index at which the list holds the very object,
  and \<^verbatim>\<open>None\<close> when the loop ends without a return.
\<close>

fun get_index :: "ref list \<Rightarrow> ref \<Rightarrow> nat option" where
  "get_index [] obj = None"
| "get_index (item # lst) obj =
     (if item = obj then Some 0 else map_option Suc (get_index lst obj))"

text \<open>
  Lines 159 to 161 and 162 to 164: the list of the owning container, when there is one, gets
  the new spike train at the index of the old one. An index \<^verbatim>\<open>None\<close> is a TypeError.
\<close>

definition none_index_msg :: string where
  "none_index_msg = ''list indices must be integers or slices, not NoneType''"

definition patch_container :: "store \<Rightarrow> ref option \<Rightarrow> ref \<Rightarrow> ref \<Rightarrow> error + store" where
  "patch_container s container old_st new_st =
     (case container of
        None \<Rightarrow> Inr s
      | Some c \<Rightarrow>
          (case get_index (lists s c) old_st of
             None \<Rightarrow> Inl (TypeError none_index_msg)
           | Some i \<Rightarrow> Inr (s\<lparr>lists := (lists s)(c := (lists s c)[i := new_st])\<rparr>)))"

text \<open>
  The body of the loop over the spike trains (lines 143 to 165) at the index \<open>idx\<close> of the
  list \<open>spiketrains\<close>. The spike train found there is annotated with one complexity per
  spike. When a threshold is given, a new spike train of the spikes that the mask keeps is
  made (indexing a spike train by a mask selects its times and its array annotations alike,
  and keeps its unit and segment), put into the list at \<open>idx\<close> and then into the lists of
  the unit and of the segment of the old spike train. The result is the exception raised, if
  any, and the store as the body leaves it.
\<close>

definition process_spiketrain ::
    "nat list \<Rightarrow> real list \<Rightarrow> int option \<Rightarrow> bool \<Rightarrow> ref \<Rightarrow> nat \<Rightarrow> store
      \<Rightarrow> error option \<times> store" where
  "process_spiketrain complexities right_edges deletion_threshold invert_delete spiketrains idx s =
     (let st_ref = lists s spiketrains ! idx in
      case objects s st_ref of
        Other \<Rightarrow> (Some (AttributeError ''times''), s)
      | SpikeTrain st \<Rightarrow>
          (let spike_to_epoch_idx = map (searchsorted right_edges) (spike_times st) in
           case np_take complexities spike_to_epoch_idx of
             Inl e \<Rightarrow> (Some e, s)
           | Inr complexity_per_spike \<Rightarrow>
               (let annotated = st\<lparr>complexity := Some complexity_per_spike\<rparr>;
                    s1 = s\<lparr>objects := (objects s)(st_ref := SpikeTrain annotated)\<rparr>
                in case deletion_threshold of
                     None \<Rightarrow> (None, s1)
                   | Some threshold \<Rightarrow>
                       (let mask0 = map (\<lambda>c. int c < threshold) complexity_per_spike;
                            mask1 = (if invert_delete then map Not mask0 else mask0);
                            old_st = st_ref;
                            new_st = next_ref s1;
                            s2 = s1\<lparr>objects := (objects s1)(new_st := SpikeTrain
                                       (annotated\<lparr>spike_times := select (spike_times st) mask1,
                                          complexity := Some (select complexity_per_spike mask1)\<rparr>)),
                                    unit_of := (unit_of s1)(new_st := unit_of s1 old_st),
                                    segment_of := (segment_of s1)(new_st := segment_of s1 old_st),
                                    next_ref := Suc new_st\<rparr>;
                            s3 = s2\<lparr>lists := (lists s2)
                                       (spiketrains := (lists s2 spiketrains)[idx := new_st])\<rparr>
                        in case patch_container s3 (unit_of s3 old_st) old_st new_st of
                             Inl e \<Rightarrow> (Some e, s3)
                           | Inr s4 \<Rightarrow>
                               (case patch_container s4 (segment_of s4 old_st) old_st new_st of
                                  Inl e \<Rightarrow> (Some e, s4)
                                | Inr s5 \<Rightarrow> (None, s5))))))"

text \<open>
  The loop over the indices of the list. No statement of the body changes the length of a
  list, so the indices are those of the list as it is when the loop begins; the element at an
  index is read when the loop arrives there. The first exception ends the loop.
\<close>

fun process_all ::
    "nat list \<Rightarrow> real list \<Rightarrow> int option \<Rightarrow> bool \<Rightarrow> ref \<Rightarrow> nat list \<Rightarrow> store
      \<Rightarrow> error option \<times> store" where
  "process_all cs rs threshold invert_delete spiketrains [] s = (None, s)"
| "process_all cs rs threshold invert_delete spiketrains (idx # idxs) s =
     (case process_spiketrain cs rs threshold invert_delete spiketrains idx s of
        (Some e, s1) \<Rightarrow> (Some e, s1)
      | (None, s1) \<Rightarrow> process_all cs rs threshold invert_delete spiketrains idxs s1)"

text \<open>
  \<^verbatim>\<open>detect_synchrofacts\<close>, on the list object \<open>spiketrains\<close> of the store \<open>s\<close>. The result
  is the epoch returned or the exception raised, and the store as the call leaves it.
\<close>

definition detect_synchrofacts ::
    "store \<Rightarrow> ref \<Rightarrow> real \<Rightarrow> nat \<Rightarrow> int option \<Rightarrow> bool \<Rightarrow> (error + epoch) \<times> store" where
  "detect_synchrofacts s spiketrains sampling_rate spread deletion_threshold invert_delete =
     (if (case deletion_threshold of None \<Rightarrow> False | Some threshold \<Rightarrow> threshold \<le> 1)
      then (Inl (ValueError deletion_msg), s)
      else
        case precise_complexity_intervals (map (objects s) (lists s spiketrains))
               sampling_rate spread of
          Inl e \<Rightarrow> (Inl e, s)
        | Inr complexity_epoch \<Rightarrow>
            (let complexities = ep_complexity complexity_epoch;
                 right_edges = map2 (+) (ep_times complexity_epoch) (ep_durations complexity_epoch)
             in case process_all complexities right_edges deletion_threshold invert_delete
                       spiketrains [0..<length (lists s spiketrains)] s of
                  (Some e, s1) \<Rightarrow> (Inl e, s1)
                | (None, s1) \<Rightarrow> (Inr complexity_epoch, s1)))"

section \<open>Auxiliary definitions\<close>

text \<open>The evenly spaced points \<open>0, w, 2w, \<dots>, nw\<close>.\<close>

definition grid :: "real \<Rightarrow> nat \<Rightarrow> real list" where
  "grid w n = map (\<lambda>i. real i * w) [0..<Suc n]"

text \<open>
  Two stores with the spike trains of the worked example at the references 0 and 1, both
  owned by one segment and by no unit. In \<open>owned_store\<close> the list at reference 2 is the
  list of the segment itself. In \<open>selected_store\<close> the list at reference 2 is a list of its
  own that holds the same two spike trains, and the list of the segment is at reference 3.
\<close>

definition example_objects :: "ref \<Rightarrow> obj" where
  "example_objects r =
     (if r = 0
      then SpikeTrain \<lparr>spike_times = [1, 4, 6], t_start = 0, t_stop = 10, complexity = None\<rparr>
      else if r = 1
      then SpikeTrain \<lparr>spike_times = [1, 5, 8], t_start = 0, t_stop = 10, complexity = None\<rparr>
      else Other)"

definition owned_store :: store where
  "owned_store =
     \<lparr>objects = example_objects,
       lists = (\<lambda>r. if r = 2 then [0, 1] else []),
       unit_of = (\<lambda>r. None),
       segment_of = (\<lambda>r. if r = 0 \<or> r = 1 then Some 2 else None),
       next_ref = 3\<rparr>"

definition selected_store :: store where
  "selected_store =
     \<lparr>objects = example_objects,
       lists = (\<lambda>r. if r = 2 \<or> r = 3 then [0, 1] else []),
       unit_of = (\<lambda>r. None),
       segment_of = (\<lambda>r. if r = 0 \<or> r = 1 then Some 3 else None),
       next_ref = 4\<rparr>"

section \<open>The online mean\<close>

lemma units_of_as_units [simp]: "units_of (as_units u x) = u"
  by (cases u) (simp_all add: as_units_def)

lemma magnitude_of_as_units [simp]: "magnitude_of (as_units u x) = x"
  by (cases u) (simp_all add: as_units_def)

lemma mean_step_aux:
  fixes S t a d :: real
  assumes "a \<noteq> 0" "d \<noteq> 0"
  shows "S / a + (t - S / a * (d - a)) / d = (S + t) / d"
  using assms by (simp add: field_simps)

lemma mean_step:
  fixes S t :: real
  assumes "0 < n"
  shows "S / real n + (t - S / real n * real k) / real (n + k) = (S + t) / real (n + k)"
  using mean_step_aux [of "real n" "real (n + k)" S t] assms by simp

lemma mean_step_Suc:
  fixes S t :: real
  assumes "0 < n"
  shows "S / real n + (t - S / real n * real (Suc 0)) / real (Suc n) = (S + t) / real (Suc n)"
  using mean_step [OF assms, of S t "Suc 0"] by (simp del: of_nat_Suc)

lemma update_first:
  assumes "mean s = None" "count s = 0" "batch_mode s = b" "shaped b (magnitude_of v)"
    "values_of (magnitude_of v) \<noteq> []"
  shows "update s v = Inr (s\<lparr>count := length (values_of (magnitude_of v)),
            mean := Some (Fin (sum_list (values_of (magnitude_of v))
                               / real (length (values_of (magnitude_of v))))),
            units := units_of v\<rparr>)"
  using assms
  by (cases b; cases "magnitude_of v") (simp_all add: update_def of_count_def)

lemma update_later:
  assumes "mean s = Some (Fin (S / real n))" "count s = n" "0 < n" "units s = units_of v"
    "batch_mode s = b" "shaped b (magnitude_of v)"
  shows "update s v = Inr (s\<lparr>count := n + length (values_of (magnitude_of v)),
            mean := Some (Fin ((S + sum_list (values_of (magnitude_of v)))
                               / real (n + length (values_of (magnitude_of v)))))\<rparr>)"
  using assms
  by (cases b; cases "magnitude_of v")
     (simp_all add: update_def of_count_def np_add_def np_sub_def np_mul_def Let_def
       mean_step_Suc mean_step del: of_nat_add of_nat_Suc times_divide_eq_left)

lemma updates_later:
  assumes "mean s = Some (Fin (S / real n))" "count s = n" "0 < n" "units s = u"
    "batch_mode s = b" "\<forall>v\<in>set vs. shaped b (magnitude_of v) \<and> units_of v = u"
  shows "\<exists>s'. updates s vs = Inr s'
           \<and> mean s' = Some (Fin ((S + sum_list (seen vs)) / real (n + length (seen vs))))
           \<and> count s' = n + length (seen vs) \<and> units s' = u"
  using assms
proof (induction vs arbitrary: s S n)
  case Nil
  then show ?case by (simp add: seen_def)
next
  case (Cons v vs)
  let ?xs = "values_of (magnitude_of v)"
  let ?s = "s\<lparr>count := n + length ?xs,
              mean := Some (Fin ((S + sum_list ?xs) / real (n + length ?xs)))\<rparr>"
  have u: "update s v = Inr ?s"
    using Cons.prems by (intro update_later) auto
  have "\<exists>s'. updates ?s vs = Inr s'
          \<and> mean s' = Some (Fin (((S + sum_list ?xs) + sum_list (seen vs))
                                  / real ((n + length ?xs) + length (seen vs))))
          \<and> count s' = (n + length ?xs) + length (seen vs) \<and> units s' = u"
    using Cons.prems by (intro Cons.IH) auto
  then show ?case using u by (simp add: seen_def add.assoc)
qed

lemma updates_MeanOnline:
  assumes "vs \<noteq> []" "\<forall>v\<in>set vs. shaped b (magnitude_of v) \<and> units_of v = u"
    "values_of (magnitude_of (hd vs)) \<noteq> []"
  shows "\<exists>s. updates (MeanOnline b) vs = Inr s
           \<and> mean s = Some (Fin (sum_list (seen vs) / real (length (seen vs))))
           \<and> count s = length (seen vs) \<and> units s = u"
proof -
  obtain v ws where vs: "vs = v # ws" using assms(1) by (cases vs) auto
  let ?xs = "values_of (magnitude_of v)"
  let ?s = "(MeanOnline b)\<lparr>count := length ?xs,
              mean := Some (Fin (sum_list ?xs / real (length ?xs))), units := units_of v\<rparr>"
  have u: "update (MeanOnline b) v = Inr ?s"
    using assms vs by (intro update_first) (auto simp: MeanOnline_def)
  have "\<exists>s'. updates ?s ws = Inr s'
          \<and> mean s' = Some (Fin ((sum_list ?xs + sum_list (seen ws))
                                  / real (length ?xs + length (seen ws))))
          \<and> count s' = length ?xs + length (seen ws) \<and> units s' = u"
    using assms vs by (intro updates_later) (auto simp: MeanOnline_def)
  then show ?thesis using u vs by (simp add: seen_def)
qed

lemma seen_scalars: "seen (map (as_units u \<circ> Scalar) xs) = xs"
  by (induction xs) (simp_all add: seen_def)

text \<open>
  Claim C2, as amended. Let a mean accumulator (in single or in batch mode) receive a finite
  sequence of updates that all have the shape its mode expects and the same unit tag, and let
  the first update carry at least one value. Then after each update \<^verbatim>\<open>get_mean()\<close> is the
  arithmetic mean of all the values seen so far and the count is their number. In
  particular one batch of N values (N positive) leaves the same mean and count as the same
  values fed one at a time.
\<close>

theorem MeanOnline_mean_of_seen:
  "(vs \<noteq> [] \<and> (\<forall>v\<in>set vs. shaped b (magnitude_of v) \<and> units_of v = u)
      \<and> values_of (magnitude_of (hd vs)) \<noteq> [] \<and> 0 < k \<and> k \<le> length vs
     \<longrightarrow> (\<exists>s. updates (MeanOnline b) (take k vs) = Inr s
            \<and> get_mean s = as_units u (Some (Fin (sum_list (seen (take k vs))
                                                   / real (length (seen (take k vs))))))
            \<and> count s = length (seen (take k vs))))
   \<and> (xs \<noteq> []
     \<longrightarrow> (\<exists>s1 s2. updates (MeanOnline True) [as_units u (Array xs)] = Inr s1
            \<and> updates (MeanOnline False) (map (as_units u \<circ> Scalar) xs) = Inr s2
            \<and> get_mean s1 = get_mean s2 \<and> count s1 = count s2))"
proof (intro conjI impI)
  assume a: "vs \<noteq> [] \<and> (\<forall>v\<in>set vs. shaped b (magnitude_of v) \<and> units_of v = u)
      \<and> values_of (magnitude_of (hd vs)) \<noteq> [] \<and> 0 < k \<and> k \<le> length vs"
  then have "take k vs \<noteq> []" "hd (take k vs) = hd vs" by auto
  moreover have "\<forall>v\<in>set (take k vs). shaped b (magnitude_of v) \<and> units_of v = u"
    using a by (meson in_set_takeD)
  ultimately obtain s where "updates (MeanOnline b) (take k vs) = Inr s"
      "mean s = Some (Fin (sum_list (seen (take k vs)) / real (length (seen (take k vs)))))"
      "count s = length (seen (take k vs))" "units s = u"
    using updates_MeanOnline [of "take k vs" b u] a by auto
  then show "\<exists>s. updates (MeanOnline b) (take k vs) = Inr s
            \<and> get_mean s = as_units u (Some (Fin (sum_list (seen (take k vs))
                                                   / real (length (seen (take k vs))))))
            \<and> count s = length (seen (take k vs))"
    by (auto simp: get_mean_def)
next
  assume xs: "xs \<noteq> []"
  obtain s1 where s1: "updates (MeanOnline True) [as_units u (Array xs)] = Inr s1"
      "mean s1 = Some (Fin (sum_list xs / real (length xs)))" "count s1 = length xs" "units s1 = u"
    using updates_MeanOnline [of "[as_units u (Array xs)]" True u] xs
    by (auto simp: seen_def)
  obtain s2 where s2: "updates (MeanOnline False) (map (as_units u \<circ> Scalar) xs) = Inr s2"
      "mean s2 = Some (Fin (sum_list xs / real (length xs)))" "count s2 = length xs" "units s2 = u"
    using updates_MeanOnline [of "map (as_units u \<circ> Scalar) xs" False u] xs
    by (auto simp: seen_scalars hd_map)
  show "\<exists>s1 s2. updates (MeanOnline True) [as_units u (Array xs)] = Inr s1
            \<and> updates (MeanOnline False) (map (as_units u \<circ> Scalar) xs) = Inr s2
            \<and> get_mean s1 = get_mean s2 \<and> count s1 = count s2"
    using s1 s2 by (auto simp: get_mean_def)
qed

theorem MeanOnline_mean_of_seen_witness:
  "([Untagged (Array [1, 2]), Untagged (Array []), Untagged (Array [6])] \<noteq> []
      \<and> list_all (\<lambda>v. shaped True (magnitude_of v) \<and> units_of v = None)
            [Untagged (Array [1, 2]), Untagged (Array []), Untagged (Array [6])]
      \<and> values_of (magnitude_of
            (hd [Untagged (Array [1, 2]), Untagged (Array []), Untagged (Array [6])])) \<noteq> []
      \<and> (0::nat) < 3
      \<and> 3 \<le> length [Untagged (Array [1, 2]), Untagged (Array []), Untagged (Array [6])])
   \<and> (\<exists>s. updates (MeanOnline True)
              (take 3 [Untagged (Array [1, 2]), Untagged (Array []), Untagged (Array [6])]) = Inr s
          \<and> get_mean s = as_units None (Some (Fin (sum_list (seen
                (take 3 [Untagged (Array [1, 2]), Untagged (Array []), Untagged (Array [6])]))
              / real (length (seen
                (take 3 [Untagged (Array [1, 2]), Untagged (Array []), Untagged (Array [6])]))))))
          \<and> count s = length (seen
                (take 3 [Untagged (Array [1, 2]), Untagged (Array []), Untagged (Array [6])])))
   \<and> [2, 4, 9] \<noteq> ([] :: real list)
   \<and> (\<exists>s1 s2. updates (MeanOnline True) [as_units None (Array [2, 4, 9])] = Inr s1
          \<and> updates (MeanOnline False) (map (as_units None \<circ> Scalar) [2, 4, 9]) = Inr s2
          \<and> get_mean s1 = get_mean s2 \<and> count s1 = count s2)"
proof -
  let ?vs = "[Untagged (Array [1, 2]), Untagged (Array []), Untagged (Array [6])]"
  have p: "?vs \<noteq> [] \<and> (\<forall>v\<in>set ?vs. shaped True (magnitude_of v) \<and> units_of v = None)
      \<and> values_of (magnitude_of (hd ?vs)) \<noteq> [] \<and> (0::nat) < 3 \<and> 3 \<le> length ?vs"
    by simp
  have p': "list_all (\<lambda>v. shaped True (magnitude_of v) \<and> units_of v = None) ?vs"
    by simp
  have q: "[2, 4, 9] \<noteq> ([] :: real list)"
    by simp
  show ?thesis
    using MeanOnline_mean_of_seen [of ?vs True None 3 "[2, 4, 9]"] p p' q by blast
qed

theorem MeanOnline_empty_first_batch:
  "updates (MeanOnline True) [Untagged (Array []), Untagged (Array [1, 2])]
     = Inr \<lparr>mean = Some NaN, count = 2, units = None, batch_mode = True\<rparr>
   \<and> seen [Untagged (Array []), Untagged (Array [1, 2])] = [1, 2]
   \<and> get_mean \<lparr>mean = Some NaN, count = 2, units = None, batch_mode = True\<rparr>
       \<noteq> Untagged (Some (Fin (sum_list [1, 2] / real (length [1, 2 :: real]))))"
  by (simp add: update_def MeanOnline_def of_count_def np_add_def np_sub_def np_mul_def
      seen_def get_mean_def as_units_def)

section \<open>The online variance\<close>

text \<open>
  Claim C5, as amended. Once the variance accumulator has been updated (its mean is not
  \<^verbatim>\<open>None\<close>) and its count is at most 1, \<^verbatim>\<open>get_mean_std\<close> returns the standard deviation 0
  exactly, whether unbiased or not; this is so in particular after exactly one single-value
  update, which leaves the count 1. Before the first update \<^verbatim>\<open>get_mean_std\<close> returns the
  pair \<^verbatim>\<open>(None, None)\<close>.
\<close>

theorem get_mean_std_few_samples:
  "(mean s \<noteq> None \<and> count s \<le> 1
      \<longrightarrow> (\<exists>m. get_mean_std s unbiased = Some (m, as_units (units s) (Fin 0))))
   \<and> (var_update (VarianceOnline False) v = Inr s'
      \<longrightarrow> count s' = 1
          \<and> (\<exists>m. get_mean_std s' unbiased = Some (m, as_units (units_of v) (Fin 0))))
   \<and> get_mean_std (VarianceOnline b) unbiased = None"
proof (intro conjI impI)
  assume "mean s \<noteq> None \<and> count s \<le> 1"
  then show "\<exists>m. get_mean_std s unbiased = Some (m, as_units (units s) (Fin 0))"
    by (auto simp: get_mean_std_def)
next
  assume u: "var_update (VarianceOnline False) v = Inr s'"
  then show "count s' = 1"
    by (cases "magnitude_of v")
       (auto simp: var_update_def VarianceOnline_def Let_def split: if_splits)
  from u show "\<exists>m. get_mean_std s' unbiased = Some (m, as_units (units_of v) (Fin 0))"
    by (cases "magnitude_of v")
       (auto simp: var_update_def VarianceOnline_def get_mean_std_def Let_def split: if_splits)
next
  show "get_mean_std (VarianceOnline b) unbiased = None"
    by (simp add: get_mean_std_def VarianceOnline_def)
qed

theorem get_mean_std_few_samples_witness:
  "mean \<lparr>mean = Some (Fin 7), count = 1, units = Some ''ms'', batch_mode = False,
          variance_sum = Fin 0\<rparr> \<noteq> None
   \<and> count \<lparr>mean = Some (Fin 7), count = 1, units = Some ''ms'', batch_mode = False,
            variance_sum = Fin 0\<rparr> \<le> 1
   \<and> get_mean_std \<lparr>mean = Some (Fin 7), count = 1, units = Some ''ms'', batch_mode = False,
            variance_sum = Fin 0\<rparr> True = Some (Quantity (Fin 7) ''ms'', Quantity (Fin 0) ''ms'')
   \<and> var_update (VarianceOnline False) (Quantity (Scalar 7) ''ms'')
       = Inr \<lparr>mean = Some (Fin 7), count = 1, units = Some ''ms'', batch_mode = False,
              variance_sum = Fin 0\<rparr>
   \<and> get_mean_std (VarianceOnline True) True = None"
proof -
  let ?s = "\<lparr>mean = Some (Fin 7), count = 1, units = Some ''ms'', batch_mode = False,
             variance_sum = Fin 0\<rparr>"
  have u: "var_update (VarianceOnline False) (Quantity (Scalar 7) ''ms'') = Inr ?s"
    by (simp add: var_update_def VarianceOnline_def of_count_def np_add_def np_sub_def
        np_mul_def)
  have m: "get_mean_std ?s True = Some (Quantity (Fin 7) ''ms'', Quantity (Fin 0) ''ms'')"
    by (simp add: get_mean_std_def as_units_def)
  show ?thesis
    using get_mean_std_few_samples [of ?s True "Quantity (Scalar 7) ''ms''" ?s True] u m
    by simp
qed

theorem get_mean_std_never_updated:
  "count (VarianceOnline False) \<le> 1
   \<and> get_mean_std (VarianceOnline False) False = None
   \<and> get_mean_std (VarianceOnline False) True = None"
  by (simp add: get_mean_std_def VarianceOnline_def)

text \<open>
  Claim C6. The eight values 2, 4, 4, 4, 5, 5, 7, 9, fed to a variance accumulator one per
  update, leave the mean 5 and, with \<^verbatim>\<open>unbiased=False\<close>, the standard deviation 2, both
  exactly.
\<close>

theorem get_mean_std_known_sample:
  "(case var_updates (VarianceOnline False)
           (map (Untagged \<circ> Scalar) [2, 4, 4, 4, 5, 5, 7, 9]) of
      Inl e \<Rightarrow> None
    | Inr s \<Rightarrow> get_mean_std s False)
   = Some (Untagged (Fin 5), Untagged (Fin 2))"
  by (simp add: var_update_def VarianceOnline_def get_mean_std_def of_count_def np_add_def
      np_sub_def np_mul_def as_units_def)

section \<open>The histogram of inter-spike intervals\<close>

lemma in_bin_unique:
  assumes "sorted edges" "in_bin edges k x" "in_bin edges i x"
    "k < length edges - 1" "i < length edges - 1"
  shows "i = k"
proof (rule ccontr)
  assume ne: "i \<noteq> k"
  have *: "False" if "a < b" "b < length edges - 1" "in_bin edges a x" "in_bin edges b x" for a b
  proof -
    have "x < edges ! (a + 1)" using that by (auto simp: in_bin_def split: if_splits)
    moreover have "edges ! (a + 1) \<le> edges ! b"
      using assms(1) that by (intro sorted_nth_mono) auto
    moreover have "edges ! b \<le> x" using that by (simp add: in_bin_def)
    ultimately show False by simp
  qed
  from ne consider "i < k" | "k < i" by linarith
  then show False using * assms by cases blast+
qed

lemma histogram_single:
  assumes "sorted edges" "k < length edges - 1" "in_bin edges k x"
  shows "np_histogram [x] edges = Inr ((replicate (length edges - 1) 0)[k := 1])"
proof -
  have "map (\<lambda>i. length (filter (in_bin edges i) [x])) [0..<length edges - 1]
        = (replicate (length edges - 1) 0)[k := 1]"
  proof (rule nth_equalityI)
    fix i assume "i < length (map (\<lambda>i. length (filter (in_bin edges i) [x])) [0..<length edges - 1])"
    then have i: "i < length edges - 1" by simp
    show "map (\<lambda>i. length (filter (in_bin edges i) [x])) [0..<length edges - 1] ! i
          = (replicate (length edges - 1) 0)[k := 1] ! i"
    proof (cases "i = k")
      case True
      then show ?thesis using assms i by simp
    next
      case False
      then have "\<not> in_bin edges i x" using in_bin_unique [OF assms(1,3) _ assms(2) i] by blast
      then show ?thesis using False i by simp
    qed
  qed simp
  then show ?thesis using assms(1) by (simp add: np_histogram_def)
qed

lemma histogram_empty:
  assumes "sorted edges"
  shows "np_histogram [] edges = Inr (replicate (length edges - 1) 0)"
  using assms by (simp add: np_histogram_def map_replicate_const)

lemma map2_add_replicate_0:
  "length xs = n \<Longrightarrow> map2 (+) xs (replicate n (0::nat)) = xs"
  by (rule nth_equalityI) auto

lemma map2_add_replicate_0_left:
  "length xs = n \<Longrightarrow> map2 (+) (replicate n (0::nat)) xs = xs"
  by (rule nth_equalityI) auto

lemma map2_add_two_hits:
  assumes "i \<noteq> j"
  shows "map2 (+) ((replicate n (0::nat))[i := 1]) ((replicate n 0)[j := 1]) = (replicate n 0)[i := 1, j := 1]"
proof (rule nth_equalityI)
  fix k assume "k < length (map2 (+) ((replicate n (0::nat))[i := 1]) ((replicate n 0)[j := 1]))"
  then have "k < n" by simp
  then show "map2 (+) ((replicate n (0::nat))[i := 1]) ((replicate n 0)[j := 1]) ! k = (replicate n 0)[i := 1, j := 1] ! k"
    using assms by (cases "k = i"; cases "k = j"; simp)
qed simp

lemma sorted_grid: "0 \<le> w \<Longrightarrow> sorted (grid w n)"
  unfolding grid_def sorted_iff_nth_mono
  by (auto simp del: upt_Suc intro!: mult_right_mono)

lemma length_grid: "length (grid w n) = Suc n" by (simp add: grid_def)
lemma nth_grid: "i \<le> n \<Longrightarrow> grid w n ! i = real i * w"
  unfolding grid_def by (simp del: upt_Suc)

lemma init_ok:
  assumes "4 \<le> M"
  shows "InterSpikeIntervalOnline 1 M False =
     Inr \<lparr>max_isi_value = M, last_spike_time = None, bin_size = 1, num_bins = nat \<lfloor>M\<rfloor>,
          bin_edges = grid (M / real (nat \<lfloor>M\<rfloor>)) (nat \<lfloor>M\<rfloor>),
          current_isi_histogram = replicate (nat \<lfloor>M\<rfloor>) 0, bach_mode = False, isi_units = None\<rparr>"
proof -
  have "4 \<le> \<lfloor>M\<rfloor>" using assms by linarith
  then have "nat (\<lfloor>M\<rfloor> + 1) = Suc (nat \<lfloor>M\<rfloor>)" "\<lfloor>M\<rfloor> + 1 \<noteq> 1" "\<not> \<lfloor>M\<rfloor> + 1 < 0" "\<not> \<lfloor>M\<rfloor> < 0" by linarith+
  moreover have "py_int M = \<lfloor>M\<rfloor>" using assms by (simp add: py_int_def)
  ultimately show ?thesis
    by (simp add: InterSpikeIntervalOnline_def np_linspace_def grid_def Let_def del: upt_Suc)
qed

lemma bins_2_3:
  assumes "4 \<le> M"
  defines "n \<equiv> nat \<lfloor>M\<rfloor>"
  defines "w \<equiv> M / real n"
  defines "i \<equiv> (if M = real n then 2 else 1::nat)"
  shows "in_bin (grid w n) i 2" "in_bin (grid w n) (Suc i) 3" "Suc i < n" "0 \<le> w"
proof -
  have n4: "4 \<le> n" using assms by (simp add: n_def le_nat_floor)
  have nM: "real n \<le> M" "M < real n + 1" using assms unfolding n_def by linarith+
  have npos: "0 < real n" using n4 by simp
  have w1: "1 \<le> w" using nM npos by (simp add: w_def field_simps)
  have "M < real n * (5 / 4)" using nM n4 by simp
  then have w2: "w < 5 / 4" using npos by (simp add: w_def field_simps)
  show "0 \<le> w" using w1 by simp
  show "Suc i < n" using n4 by (simp add: i_def)
  show "in_bin (grid w n) i 2"
  proof (cases "M = real n")
    case True
    then have "w = 1" using npos by (simp add: w_def)
    then show ?thesis using True n4 by (simp add: in_bin_def i_def nth_grid length_grid)
  next
    case False
    then have "1 < w" using nM npos by (simp add: w_def field_simps)
    then show ?thesis using False n4 w2 by (simp add: in_bin_def i_def nth_grid length_grid)
  qed
  show "in_bin (grid w n) (Suc i) 3"
  proof (cases "M = real n")
    case True
    then have "w = 1" using npos by (simp add: w_def)
    then show ?thesis using True n4 by (simp add: in_bin_def i_def nth_grid length_grid)
  next
    case False
    then have "1 < w" using nM npos by (simp add: w_def field_simps)
    then show ?thesis using False n4 w2 by (simp add: in_bin_def i_def nth_grid length_grid)
  qed
qed


lemma isi_update_single_first:
  assumes "\<not> bach_mode s" "last_spike_time s = None" "sorted (bin_edges s)"
    "length (current_isi_histogram s) = length (bin_edges s) - 1"
  shows "isi_update s (as_units u (Scalar x)) = Inr (s\<lparr>last_spike_time := Some x, isi_units := u\<rparr>)"
  using assms
  by (simp add: isi_update_def histogram_empty map2_add_replicate_0)

lemma isi_update_single_later:
  assumes "\<not> bach_mode s" "last_spike_time s = Some t" "isi_units s = u" "sorted (bin_edges s)"
    "k < length (bin_edges s) - 1" "in_bin (bin_edges s) k (x - t)"
  shows "isi_update s (as_units u (Scalar x)) =
     Inr (s\<lparr>last_spike_time := Some x,
            current_isi_histogram := map2 (+) (current_isi_histogram s)
               ((replicate (length (bin_edges s) - 1) 0)[k := 1])\<rparr>)"
  using assms by (simp add: isi_update_def histogram_single)

text \<open>
  Claim C7. Let the histogrammer be in single-event mode with bin size 1 and a largest
  interval \<open>M\<close> of at least 4, and let it receive the events 0, 2 and 5, one per update,
  all with one unit tag. The first update contributes no interval: it only records the event
  as the last one (and the unit tag). After the three updates the histogram holds one count
  in the bin that covers the interval 2, one count in the bin that covers the interval 3,
  these are two bins, and every other bin is empty.
\<close>

theorem isi_single_events:
  assumes "4 \<le> M"
  shows "\<exists>s0 s3 i j.
     InterSpikeIntervalOnline 1 M False = Inr s0 \<and>
     isi_update s0 (as_units u (Scalar 0)) = Inr (s0\<lparr>last_spike_time := Some 0, isi_units := u\<rparr>) \<and>
     isi_updates s0 (map (as_units u \<circ> Scalar) [0, 2, 5]) = Inr s3 \<and>
     i < j \<and> j < num_bins s0 \<and> in_bin (bin_edges s0) i 2 \<and> in_bin (bin_edges s0) j 3 \<and>
     current_isi_histogram s3 = (replicate (num_bins s0) 0)[i := 1, j := 1]"
proof -
  define n where "n = nat \<lfloor>M\<rfloor>"
  define w where "w = M / real n"
  define i where "i = (if M = real n then 2 else 1::nat)"
  define s0 where "s0 = \<lparr>max_isi_value = M, last_spike_time = None, bin_size = 1, num_bins = n,
          bin_edges = grid w n, current_isi_histogram = replicate n 0, bach_mode = False,
          isi_units = None\<rparr>"
  define s1 where "s1 = s0\<lparr>last_spike_time := Some 0, isi_units := u\<rparr>"
  define s2 where "s2 = s1\<lparr>last_spike_time := Some 2, current_isi_histogram := (replicate n 0)[i := 1]\<rparr>"
  define s3 where "s3 = s2\<lparr>last_spike_time := Some 5, current_isi_histogram := (replicate n 0)[i := 1, Suc i := 1]\<rparr>"
  note b = bins_2_3 [OF assms, folded n_def w_def, folded i_def]
  have init: "InterSpikeIntervalOnline 1 M False = Inr s0"
    unfolding s0_def w_def n_def by (rule init_ok [OF assms])
  have srt: "sorted (grid w n)" using b(4) by (rule sorted_grid)
  have u1: "isi_update s0 (as_units u (Scalar 0)) = Inr s1"
    unfolding s1_def by (rule isi_update_single_first) (simp_all add: s0_def srt length_grid)
  have u2: "isi_update s1 (as_units u (Scalar 2)) = Inr s2"
    using isi_update_single_later [of s1 0 u i 2] b srt
    by (simp add: s1_def s2_def s0_def length_grid map2_add_replicate_0_left)
  have "map2 (+) ((replicate n (0::nat))[i := 1]) ((replicate n 0)[Suc i := 1]) = (replicate n 0)[i := 1, Suc i := 1]"
    by (rule map2_add_two_hits) simp
  then have u3: "isi_update s2 (as_units u (Scalar 5)) = Inr s3"
    using isi_update_single_later [of s2 2 u "Suc i" 5] b srt
    by (simp add: s1_def s2_def s3_def s0_def length_grid)
  have "isi_updates s0 (map (as_units u \<circ> Scalar) [0, 2, 5]) = Inr s3"
    using u1 u2 u3 by simp
  moreover have "current_isi_histogram s3 = (replicate (num_bins s0) 0)[i := 1, Suc i := 1]"
    by (simp add: s3_def s0_def)
  moreover have "in_bin (bin_edges s0) i 2" "in_bin (bin_edges s0) (Suc i) 3" "Suc i < num_bins s0"
    using b by (simp_all add: s0_def)
  ultimately show ?thesis using init u1 unfolding s1_def by blast
qed


theorem isi_single_events_witness:
  "(4::real) \<le> 4 \<and>
   (\<exists>s0 s3 i j.
     InterSpikeIntervalOnline 1 4 False = Inr s0 \<and>
     isi_update s0 (as_units (Some ''ms'') (Scalar 0))
       = Inr (s0\<lparr>last_spike_time := Some 0, isi_units := Some ''ms''\<rparr>) \<and>
     isi_updates s0 (map (as_units (Some ''ms'') \<circ> Scalar) [0, 2, 5]) = Inr s3 \<and>
     i < j \<and> j < num_bins s0 \<and> in_bin (bin_edges s0) i 2 \<and> in_bin (bin_edges s0) j 3 \<and>
     current_isi_histogram s3 = (replicate (num_bins s0) 0)[i := 1, j := 1])"
proof -
  have h: "(4::real) \<le> 4" by simp
  show ?thesis
    using isi_single_events [OF h, of "Some ''ms''"] h by blast
qed

section \<open>The intervals of the worked example\<close>

text \<open>
  Claim C1. For the two spike trains with spikes at 1, 4, 6 and at 1, 5, 8 (in ms), both
  from 0 to 10 ms, and the sampling rate 1 per ms, \<^verbatim>\<open>precise_complexity_intervals\<close> returns:
  with spread 0 the complexities 2, 1, 1, 1, 1 at the start times 0, 3.5, 4.5, 5.5, 7.5 with
  the durations 1.5, 1, 1, 1, 1; with spread 1 the complexities 2, 3, 1 at 0, 3.5, 7.5 with
  the durations 1.5, 3, 1; with spread 2 the complexities 2, 4 at 0, 3.5 with the durations
  1.5 and 5.
\<close>

theorem precise_complexity_intervals_examples:
  "precise_complexity_intervals
     [SpikeTrain \<lparr>spike_times = [1, 4, 6], t_start = 0, t_stop = 10, complexity = None\<rparr>,
      SpikeTrain \<lparr>spike_times = [1, 5, 8], t_start = 0, t_stop = 10, complexity = None\<rparr>] 1 0
     = Inr \<lparr>ep_times = [0, 7 / 2, 9 / 2, 11 / 2, 15 / 2],
            ep_durations = [3 / 2, 1, 1, 1, 1],
            ep_complexity = [2, 1, 1, 1, 1]\<rparr>
   \<and> precise_complexity_intervals
     [SpikeTrain \<lparr>spike_times = [1, 4, 6], t_start = 0, t_stop = 10, complexity = None\<rparr>,
      SpikeTrain \<lparr>spike_times = [1, 5, 8], t_start = 0, t_stop = 10, complexity = None\<rparr>] 1 1
     = Inr \<lparr>ep_times = [0, 7 / 2, 15 / 2],
            ep_durations = [3 / 2, 3, 1],
            ep_complexity = [2, 3, 1]\<rparr>
   \<and> precise_complexity_intervals
     [SpikeTrain \<lparr>spike_times = [1, 4, 6], t_start = 0, t_stop = 10, complexity = None\<rparr>,
      SpikeTrain \<lparr>spike_times = [1, 5, 8], t_start = 0, t_stop = 10, complexity = None\<rparr>] 1 2
     = Inr \<lparr>ep_times = [0, 7 / 2],
            ep_durations = [3 / 2, 5],
            ep_complexity = [2, 4]\<rparr>"
  by code_simp

section \<open>Invalid input\<close>

lemma check_each_ok_iff:
  "check_each (SpikeTrain st0) xs None None = Inr () \<longleftrightarrow>
     (\<forall>x\<in>set xs. \<exists>st. x = SpikeTrain st \<and> t_start st = t_start st0 \<and> t_stop st = t_stop st0)"
proof (induction xs)
  case Nil
  then show ?case by simp
next
  case (Cons x xs)
  then show ?case by (cases x) auto
qed

lemma check_each_error:
  "check_each (SpikeTrain st0) xs None None = Inl e \<Longrightarrow>
     e \<in> {TypeError instance_msg, ValueError t_start_msg, ValueError t_stop_msg}"
proof (induction xs)
  case Nil
  then show ?case by simp
next
  case (Cons x xs)
  then show ?case by (cases x) (auto split: if_splits)
qed

lemma check_consistency_error:
  "check_consistency_of_spiketrainlist sts None None = Inl e \<Longrightarrow>
     e \<in> {ValueError empty_msg, TypeError instance_msg, ValueError t_start_msg, ValueError t_stop_msg}"
proof (cases sts)
  case Nil
  assume "check_consistency_of_spiketrainlist sts None None = Inl e"
  with Nil show ?thesis by (simp add: check_consistency_of_spiketrainlist_def)
next
  case (Cons x xs)
  assume a: "check_consistency_of_spiketrainlist sts None None = Inl e"
  show ?thesis
  proof (cases x)
    case (SpikeTrain st0)
    with a Cons have "check_each (SpikeTrain st0) (SpikeTrain st0 # xs) None None = Inl e"
      by (simp add: check_consistency_of_spiketrainlist_def)
    from check_each_error [OF this] show ?thesis by auto
  next
    case Other
    with a Cons show ?thesis by (simp add: check_consistency_of_spiketrainlist_def)
  qed
qed

lemma check_consistency_ok_iff:
  "check_consistency_of_spiketrainlist sts None None = Inr () \<longleftrightarrow>
     (\<exists>st0 xs. sts = SpikeTrain st0 # xs \<and>
        (\<forall>x\<in>set xs. \<exists>st. x = SpikeTrain st \<and> t_start st = t_start st0 \<and> t_stop st = t_stop st0))"
proof (cases sts)
  case Nil
  then show ?thesis by (simp add: check_consistency_of_spiketrainlist_def)
next
  case (Cons x xs)
  show ?thesis
  proof (cases x)
    case (SpikeTrain st0)
    have "check_each (SpikeTrain st0) (SpikeTrain st0 # xs) None None
            = check_each (SpikeTrain st0) xs None None" by simp
    then show ?thesis using Cons SpikeTrain check_each_ok_iff [of st0 xs]
      by (simp add: check_consistency_of_spiketrainlist_def)
  next
    case Other
    then show ?thesis using Cons by (simp add: check_consistency_of_spiketrainlist_def)
  qed
qed

text \<open>
  Claim C8. When the list of spike trains is empty, or holds an element that is not a spike
  train, or holds two spike trains whose start times or whose stop times differ,
  \<^verbatim>\<open>precise_complexity_intervals\<close> raises the error of the consistency check, whatever the
  sampling rate and the spread, and returns no epoch. The check is the first statement of the
  function and neither function changes its arguments.
\<close>

theorem invalid_input_raises:
  assumes "spiketrains = [] \<or> Other \<in> set spiketrains \<or>
     (\<exists>a b. SpikeTrain a \<in> set spiketrains \<and> SpikeTrain b \<in> set spiketrains \<and>
        (t_start a \<noteq> t_start b \<or> t_stop a \<noteq> t_stop b))"
  shows "\<exists>e. check_consistency_of_spiketrainlist spiketrains None None = Inl e \<and>
     precise_complexity_intervals spiketrains sampling_rate spread = Inl e \<and>
     e \<in> {ValueError empty_msg, TypeError instance_msg, ValueError t_start_msg,
           ValueError t_stop_msg}"
proof -
  have "check_consistency_of_spiketrainlist spiketrains None None \<noteq> Inr ()"
  proof
    assume "check_consistency_of_spiketrainlist spiketrains None None = Inr ()"
    then obtain st0 xs where s: "spiketrains = SpikeTrain st0 # xs"
      and all: "\<forall>x\<in>set xs. \<exists>st. x = SpikeTrain st \<and> t_start st = t_start st0 \<and> t_stop st = t_stop st0"
      using check_consistency_ok_iff by blast
    have *: "\<And>a. SpikeTrain a \<in> set spiketrains \<Longrightarrow> t_start a = t_start st0 \<and> t_stop a = t_stop st0"
      using s all by auto
    have "Other \<notin> set spiketrains" using s all by auto
    moreover have "spiketrains \<noteq> []" using s by simp
    ultimately show False using assms * by metis
  qed
  then obtain e where e: "check_consistency_of_spiketrainlist spiketrains None None = Inl e"
    by (cases "check_consistency_of_spiketrainlist spiketrains None None") auto
  then have "precise_complexity_intervals spiketrains sampling_rate spread = Inl e"
    by (simp add: precise_complexity_intervals_def)
  then show ?thesis using e check_consistency_error [OF e] by blast
qed


theorem invalid_input_raises_witness:
  "(\<exists>e. check_consistency_of_spiketrainlist
          [SpikeTrain \<lparr>spike_times = [1], t_start = 0, t_stop = 10, complexity = None\<rparr>,
           SpikeTrain \<lparr>spike_times = [2], t_start = 0, t_stop = 12, complexity = None\<rparr>]
          None None = Inl e \<and>
        precise_complexity_intervals
          [SpikeTrain \<lparr>spike_times = [1], t_start = 0, t_stop = 10, complexity = None\<rparr>,
           SpikeTrain \<lparr>spike_times = [2], t_start = 0, t_stop = 12, complexity = None\<rparr>]
          1 1 = Inl e \<and>
        e \<in> {ValueError empty_msg, TypeError instance_msg, ValueError t_start_msg,
              ValueError t_stop_msg})
   \<and> (\<exists>e. check_consistency_of_spiketrainlist [] None None = Inl e \<and>
        precise_complexity_intervals [] 1 0 = Inl e \<and>
        e \<in> {ValueError empty_msg, TypeError instance_msg, ValueError t_start_msg,
              ValueError t_stop_msg})"
proof -
  let ?a = "\<lparr>spike_times = [1], t_start = 0, t_stop = 10, complexity = None\<rparr>"
  let ?b = "\<lparr>spike_times = [2], t_start = 0, t_stop = 12, complexity = None\<rparr>"
  have "SpikeTrain ?a \<in> set [SpikeTrain ?a, SpikeTrain ?b] \<and>
        SpikeTrain ?b \<in> set [SpikeTrain ?a, SpikeTrain ?b] \<and>
        (t_start ?a \<noteq> t_start ?b \<or> t_stop ?a \<noteq> t_stop ?b)"
    by simp
  then have h: "[SpikeTrain ?a, SpikeTrain ?b] = [] \<or> Other \<in> set [SpikeTrain ?a, SpikeTrain ?b] \<or>
     (\<exists>a b. SpikeTrain a \<in> set [SpikeTrain ?a, SpikeTrain ?b] \<and>
        SpikeTrain b \<in> set [SpikeTrain ?a, SpikeTrain ?b] \<and>
        (t_start a \<noteq> t_start b \<or> t_stop a \<noteq> t_stop b))"
    by blast
  show ?thesis
    using invalid_input_raises [OF h, of 1 1] invalid_input_raises [of "[]" 1 0]
    by blast
qed

section \<open>Termination of the window growth\<close>

lemma nonzero_bound: "k \<in> set (nonzero a) \<Longrightarrow> k < length a \<and> a ! k \<noteq> 0"
  by (auto simp: nonzero_def)

lemma nonzero_empty_sum:
  assumes "nonzero a = []"
  shows "sum_list a = 0"
proof -
  have "\<forall>j<length a. a ! j = 0" using assms by (auto simp: nonzero_def filter_empty_conv)
  then have "\<forall>x\<in>set a. x = 0" by (metis in_set_conv_nth)
  then show ?thesis by (simp add: sum_list_eq_0_iff)
qed

lemma last_nonzero_ok:
  assumes "0 < sum_list a"
  shows "\<exists>k. last_nonzero a = Inr k \<and> k < length a \<and> a ! k \<noteq> 0"
proof -
  have ne: "nonzero a \<noteq> []" using assms nonzero_empty_sum by fastforce
  then have "last (nonzero a) \<in> set (nonzero a)" by simp
  then have "last (nonzero a) < length a \<and> a ! last (nonzero a) \<noteq> 0" by (rule nonzero_bound)
  moreover have "last_nonzero a = Inr (last (nonzero a))"
    using ne by (cases "nonzero a") (simp_all add: last_nonzero_def)
  ultimately show ?thesis by blast
qed

lemma length_slice: "length (slice a lo hi) = min hi (length a) - lo"
  by (simp add: slice_def)

lemma grow_window_returns:
  assumes "ws = sum_list cw" "length cw \<le> length bincount - i" "lni < length bincount - i"
  shows "\<exists>k s. grow_window bincount i spread lni cw lws ws = Inr (k, s) \<and> k < length bincount - i"
  using assms
proof (induction bincount i spread lni cw lws ws rule: grow_window.induct)
  case (1 bincount i spread lni cw lws ws)
  show ?case
  proof (cases "ws > lws")
    case False
    then show ?thesis using "1.prems" by (subst grow_window.simps) simp
  next
    case True
    then have "0 < sum_list cw" using "1.prems" by simp
    then obtain k where k: "last_nonzero cw = Inr k" "k < length cw"
      using last_nonzero_ok by blast
    let ?w = "slice bincount i (i + k + spread + 1)"
    have "\<exists>k' s. grow_window bincount i spread k ?w ws (sum_list ?w) = Inr (k', s)
            \<and> k' < length bincount - i"
      using True k "1.prems" by (intro "1.IH") (auto simp: length_slice)
    then show ?thesis using True k by (subst grow_window.simps) (simp add: Let_def)
  qed
qed

lemma scan_returns:
  assumes "length edges = Suc (length bincount)"
  shows "\<exists>r. scan bincount edges spread i cs ls rs = Inr r"
  using assms
proof (induction "length bincount - i" arbitrary: i cs ls rs rule: less_induct)
  case less
  show ?case
  proof (cases "i < length bincount")
    case False
    then show ?thesis by (subst scan.simps) simp
  next
    case True
    show ?thesis
    proof (cases "bincount ! i = 0")
      case z: True
      have "\<exists>r. scan bincount edges spread (i + 1) cs ls rs = Inr r"
        using True less.prems by (intro less.hyps) auto
      then show ?thesis using True z by (subst scan.simps) simp
    next
      case nz: False
      let ?cw = "slice bincount i (i + spread + 1)"
      have len: "length ?cw \<le> length bincount - i"
        by (simp add: length_slice)
      have pos: "0 < length bincount - i"
        using True by simp
      have "\<exists>k s. grow_window bincount i spread 0 ?cw (bincount ! i) (sum_list ?cw) = Inr (k, s)
              \<and> k < length bincount - i"
        using len pos by (intro grow_window_returns) auto
      then obtain k s where g: "grow_window bincount i spread 0 ?cw (bincount ! i) (sum_list ?cw) = Inr (k, s)"
        and k: "k < length bincount - i"
        by blast
      have e1: "np_index edges i = Inr (edges ! i)"
        using True less.prems by (simp add: np_index_def)
      have e2: "np_index edges (i + k + 1) = Inr (edges ! (i + k + 1))"
        using k less.prems by (simp add: np_index_def)
      have "\<exists>r. scan bincount edges spread (i + k + 1) (cs @ [s]) (ls @ [edges ! i])
                  (rs @ [edges ! (i + k + 1)]) = Inr r"
        using True less.prems by (intro less.hyps) auto
      then show ?thesis using True nz g e1 e2 by (subst scan.simps) (simp add: Let_def)
    qed
  qed
qed


section \<open>The intervals that the scan builds\<close>

lemma np_take_Inr: "np_take a idx = Inr r \<Longrightarrow> r = map ((!) a) idx"
  by (auto simp: np_take_def split: if_splits)

lemma BinnedSpikeTrain_lengths:
  assumes "BinnedSpikeTrain sts bs = Inr bst"
  shows "length (bst_bin_edges bst) = Suc (bst_num_bins bst)"
  using assms
  by (auto simp: BinnedSpikeTrain_def Let_def split: list.splits if_splits simp del: upt_Suc)

lemma length_column_sums: "length (column_sums n m) = n"
  by (simp add: column_sums_def)

lemma scan_cover:
  assumes "scan bincount edges spread i cs ls rs = Inr (cs', ls', rs')"
    and "length edges = Suc (length bincount)"
    and "length cs = length rs" "length ls = length rs"
    and "\<forall>j<i. j < length bincount \<longrightarrow> bincount ! j \<noteq> 0 \<longrightarrow>
           (\<exists>m<length rs. \<exists>L R. L \<le> j \<and> j < R \<and> R \<le> length bincount \<and>
              ls ! m = edges ! L \<and> rs ! m = edges ! R)"
  shows "length cs' = length rs' \<and> length ls' = length rs' \<and>
     (\<forall>j<length bincount. bincount ! j \<noteq> 0 \<longrightarrow>
        (\<exists>m<length rs'. \<exists>L R. L \<le> j \<and> j < R \<and> R \<le> length bincount \<and>
           ls' ! m = edges ! L \<and> rs' ! m = edges ! R))"
  using assms
proof (induction "length bincount - i" arbitrary: i cs ls rs rule: less_induct)
  case less
  show ?case
  proof (cases "i < length bincount")
    case False
    then have "cs' = cs" "ls' = ls" "rs' = rs"
      using less.prems(1) by (subst (asm) scan.simps, simp)+
    moreover have "\<forall>j<length bincount. j < i" using False by simp
    ultimately show ?thesis using less.prems(3,4,5) by simp
  next
    case True
    show ?thesis
    proof (cases "bincount ! i = 0")
      case z: True
      have s: "scan bincount edges spread (i + 1) cs ls rs = Inr (cs', ls', rs')"
        using less.prems(1) True z by (subst (asm) scan.simps) simp
      have inv: "\<forall>j<i + 1. j < length bincount \<longrightarrow> bincount ! j \<noteq> 0 \<longrightarrow>
           (\<exists>m<length rs. \<exists>L R. L \<le> j \<and> j < R \<and> R \<le> length bincount \<and>
              ls ! m = edges ! L \<and> rs ! m = edges ! R)"
      proof (intro allI impI)
        fix j assume j: "j < i + 1" "j < length bincount" "bincount ! j \<noteq> 0"
        then have "j < i" using z by (cases "j = i") auto
        then show "\<exists>m<length rs. \<exists>L R. L \<le> j \<and> j < R \<and> R \<le> length bincount \<and>
              ls ! m = edges ! L \<and> rs ! m = edges ! R"
          using less.prems(5) j by blast
      qed
      show ?thesis
        using True by (intro less.hyps [OF _ s less.prems(2,3,4) inv]) simp
    next
      case nz: False
      let ?cw = "slice bincount i (i + spread + 1)"
      have "\<exists>k s. grow_window bincount i spread 0 ?cw (bincount ! i) (sum_list ?cw) = Inr (k, s)
              \<and> k < length bincount - i"
        using True by (intro grow_window_returns) (auto simp: length_slice)
      then obtain k s where g: "grow_window bincount i spread 0 ?cw (bincount ! i) (sum_list ?cw) = Inr (k, s)"
        and k: "k < length bincount - i"
        by blast
      have e1: "np_index edges i = Inr (edges ! i)"
        using True less.prems(2) by (simp add: np_index_def)
      have e2: "np_index edges (i + k + 1) = Inr (edges ! (i + k + 1))"
        using k less.prems(2) by (simp add: np_index_def)
      let ?cs = "cs @ [s]" and ?ls = "ls @ [edges ! i]" and ?rs = "rs @ [edges ! (i + k + 1)]"
      have s: "scan bincount edges spread (i + k + 1) ?cs ?ls ?rs = Inr (cs', ls', rs')"
        using less.prems(1) True nz g e1 e2 by (subst (asm) scan.simps) (simp add: Let_def)
      have inv: "\<forall>j<i + k + 1. j < length bincount \<longrightarrow> bincount ! j \<noteq> 0 \<longrightarrow>
           (\<exists>m<length ?rs. \<exists>L R. L \<le> j \<and> j < R \<and> R \<le> length bincount \<and>
              ?ls ! m = edges ! L \<and> ?rs ! m = edges ! R)"
      proof (intro allI impI)
        fix j assume j: "j < i + k + 1" "j < length bincount" "bincount ! j \<noteq> 0"
        show "\<exists>m<length ?rs. \<exists>L R. L \<le> j \<and> j < R \<and> R \<le> length bincount \<and>
              ?ls ! m = edges ! L \<and> ?rs ! m = edges ! R"
        proof (cases "j < i")
          case True
          then obtain m L R where m: "m < length rs" "L \<le> j" "j < R" "R \<le> length bincount"
              "ls ! m = edges ! L" "rs ! m = edges ! R"
            using less.prems(5) j by blast
          then have "?ls ! m = edges ! L" "?rs ! m = edges ! R" "m < length ?rs"
            using less.prems(4) by (simp_all add: nth_append)
          then show ?thesis using m by blast
        next
          case False
          have "?ls ! length rs = edges ! i" "?rs ! length rs = edges ! (i + k + 1)"
            using less.prems(4) by (simp_all add: nth_append)
          moreover have "i \<le> j" "j < i + k + 1" "i + k + 1 \<le> length bincount" "length rs < length ?rs"
            using False j k by simp_all
          ultimately show ?thesis by blast
        qed
      qed
      show ?thesis
        using True k less.prems(3,4)
        by (intro less.hyps [OF _ s less.prems(2) _ _ inv]) simp_all
    qed
  qed
qed

lemma spread0_cover:
  assumes "spread0 bincount edges = Inr (cs, ls, rs)"
    and "length edges = Suc (length bincount)"
  shows "length cs = length rs \<and> length ls = length rs \<and>
     (\<forall>j<length bincount. bincount ! j \<noteq> 0 \<longrightarrow>
        (\<exists>m<length rs. \<exists>L R. L \<le> j \<and> j < R \<and> R \<le> length bincount \<and>
           ls ! m = edges ! L \<and> rs ! m = edges ! R))"
proof -
  let ?nz = "nonzero bincount"
  have cs: "cs = map ((!) bincount) ?nz" and ls: "ls = map ((!) edges) ?nz"
    and rs: "rs = map ((!) edges) (map (\<lambda>j. j + 1) ?nz)"
    using assms(1) by (auto simp: spread0_def Let_def split: sum.splits dest: np_take_Inr)
  have "\<exists>m<length rs. \<exists>L R. L \<le> j \<and> j < R \<and> R \<le> length bincount \<and>
           ls ! m = edges ! L \<and> rs ! m = edges ! R"
    if j: "j < length bincount" "bincount ! j \<noteq> 0" for j
  proof -
    have "j \<in> set ?nz" using j by (simp add: nonzero_def)
    then obtain m where m: "m < length ?nz" "?nz ! m = j" by (auto simp: in_set_conv_nth)
    then have "ls ! m = edges ! j" "rs ! m = edges ! (j + 1)" "m < length rs"
      using ls rs by simp_all
    moreover have "j \<le> j" "j < j + 1" "j + 1 \<le> length bincount"
      using j by simp_all
    ultimately show ?thesis by blast
  qed
  then show ?thesis using cs ls rs by simp
qed


lemma map2_add_diff:
  "length l = length r \<Longrightarrow> map2 (+) l (map2 (-) r l) = (r :: real list)"
  by (induction l r rule: list_induct2) auto

lemma make_epoch_facts:
  assumes "make_epoch sh ms cs ls rs = Inr ep" and "length ls = length rs"
  shows "ep_complexity ep = cs"
    and "length (ep_times ep) = length ls"
    and "map2 (+) (ep_times ep) (ep_durations ep) = map (\<lambda>x. x - sh) rs"
    and "m < length ls \<Longrightarrow> ep_times ep ! m \<le> ls ! m - sh"
proof -
  obtain l0 ls0 where ls: "ls = l0 # ls0"
    using assms(1) by (cases ls) (auto simp: make_epoch_def)
  let ?left = "min ms (l0 - sh) # map (\<lambda>x. x - sh) ls0"
  have ep: "ep = \<lparr>ep_times = ?left,
                   ep_durations = map2 (-) (map (\<lambda>x. x - sh) rs) ?left,
                   ep_complexity = cs\<rparr>"
    using assms(1) ls by (simp add: make_epoch_def Let_def)
  show "ep_complexity ep = cs" using ep by simp
  show "length (ep_times ep) = length ls" using ep ls by simp
  have "length ?left = length (map (\<lambda>x. x - sh) rs)" using assms(2) ls by simp
  from map2_add_diff [OF this]
  show "map2 (+) (ep_times ep) (ep_durations ep) = map (\<lambda>x. x - sh) rs"
    using ep by simp
  show "ep_times ep ! m \<le> ls ! m - sh" if "m < length ls"
    using that ep ls by (cases m) auto
qed

lemma searchsorted_le:
  assumes "m < length a" "v \<le> a ! m"
  shows "searchsorted a v \<le> m"
proof (rule ccontr)
  assume "\<not> searchsorted a v \<le> m"
  then have lt: "m < length (takeWhile (\<lambda>e. e < v) a)" by (simp add: searchsorted_def)
  then have "takeWhile (\<lambda>e. e < v) a ! m \<in> set (takeWhile (\<lambda>e. e < v) a)" by simp
  then have "takeWhile (\<lambda>e. e < v) a ! m < v" by (meson set_takeWhileD)
  moreover have "takeWhile (\<lambda>e. e < v) a ! m = a ! m" using lt by (rule takeWhile_nth)
  ultimately show False using assms(2) by simp
qed

lemma spiketrains_of_mem: "SpikeTrain st \<in> set xs \<Longrightarrow> st \<in> set (spiketrains_of xs)"
proof (induction xs)
  case Nil
  then show ?case by simp
next
  case (Cons x xs)
  then show ?case by (cases x) auto
qed

lemma checked_spiketrains:
  assumes "check_consistency_of_spiketrainlist sts None None = Inr u"
  shows "\<exists>st0 rest. spiketrains_of sts = st0 # rest \<and>
     (\<forall>st. SpikeTrain st \<in> set sts \<longrightarrow> t_start st = t_start st0 \<and> t_stop st = t_stop st0)"
proof -
  obtain st0 xs where s: "sts = SpikeTrain st0 # xs"
    and all: "\<forall>x\<in>set xs. \<exists>st. x = SpikeTrain st \<and> t_start st = t_start st0 \<and> t_stop st = t_stop st0"
    using assms check_consistency_ok_iff [of sts] by auto
  have "spiketrains_of sts = st0 # spiketrains_of xs" using s by simp
  moreover have "\<forall>st. SpikeTrain st \<in> set sts \<longrightarrow> t_start st = t_start st0 \<and> t_stop st = t_stop st0"
    using s all by auto
  ultimately show ?thesis by blast
qed

lemma bincount_nonzero:
  assumes "st \<in> set sts" "t \<in> set (spike_times st)" "k < n"
    and "bin_edge t0 bs k \<le> t" "t < bin_edge t0 bs (k + 1)"
  shows "column_sums n (map (\<lambda>st. bin_row t0 bs n (spike_times st)) sts) ! k \<noteq> 0"
proof -
  let ?f = "\<lambda>st. bin_row t0 bs n (spike_times st) ! k"
  have "t \<in> set (filter (\<lambda>t. bin_edge t0 bs k \<le> t \<and> t < bin_edge t0 bs (k + 1)) (spike_times st))"
    using assms by simp
  then have "0 < length (filter (\<lambda>t. bin_edge t0 bs k \<le> t \<and> t < bin_edge t0 bs (k + 1)) (spike_times st))"
    by (rule length_pos_if_in_set)
  then have "0 < ?f st" using assms(3) by (simp add: bin_row_def)
  moreover have "?f st \<in> set (map ?f sts)" using assms(1) by simp
  then have "?f st \<le> sum_list (map ?f sts)" by (intro member_le_sum_list) simp_all
  ultimately have pos: "0 < sum_list (map ?f sts)" by linarith
  have "column_sums n (map (\<lambda>st. bin_row t0 bs n (spike_times st)) sts) ! k = sum_list (map ?f sts)"
    using assms(3) by (simp add: column_sums_def comp_def)
  then show ?thesis using pos by linarith
qed



section \<open>The loops and the whole function\<close>








section \<open>The deletion threshold\<close>

lemma BinnedSpikeTrain_error:
  "BinnedSpikeTrain sts bs = Inl e \<Longrightarrow> e \<noteq> ValueError deletion_msg"
  by (auto simp: BinnedSpikeTrain_def Let_def deletion_msg_def split: list.splits if_splits)

lemma np_take_error: "np_take a idx = Inl e \<Longrightarrow> e = IndexError ''index out of bounds''"
  by (auto simp: np_take_def split: if_splits)

lemma spread0_error: "spread0 b es = Inl e \<Longrightarrow> e = IndexError ''index out of bounds''"
  by (auto simp: spread0_def Let_def split: sum.splits dest: np_take_error)

lemma min_t_start_error: "min_t_start sts = Inl e \<Longrightarrow> e \<noteq> ValueError deletion_msg"
  by (cases sts) (auto simp: deletion_msg_def)

lemma make_epoch_error: "make_epoch sh m cs ls rs = Inl e \<Longrightarrow> \<exists>msg. e = IndexError msg"
  by (auto simp: make_epoch_def Let_def split: list.splits)

lemma check_consistency_not_deletion:
  "check_consistency_of_spiketrainlist sts None None = Inl e \<Longrightarrow> e \<noteq> ValueError deletion_msg"
  by (drule check_consistency_error)
     (auto simp: deletion_msg_def empty_msg_def t_start_msg_def t_stop_msg_def)

lemma precise_complexity_intervals_error:
  assumes "precise_complexity_intervals sts rate spread = Inl e"
  shows "e \<noteq> ValueError deletion_msg"
proof (cases "check_consistency_of_spiketrainlist sts None None")
  case (Inl e')
  then show ?thesis using assms check_consistency_not_deletion [OF Inl]
    by (simp add: precise_complexity_intervals_def)
next
  case (Inr u)
  show ?thesis
  proof (cases "BinnedSpikeTrain (spiketrains_of sts) (1 / rate)")
    case (Inl e')
    then show ?thesis using assms Inr BinnedSpikeTrain_error [OF Inl]
      by (simp add: precise_complexity_intervals_def)
  next
    case bst: (Inr bst)
    let ?bc = "column_sums (bst_num_bins bst) (bst_matrix bst)"
    have len: "length (bst_bin_edges bst) = Suc (length ?bc)"
      using BinnedSpikeTrain_lengths [OF bst] by (simp add: length_column_sums)
    obtain r where sc: "scan ?bc (bst_bin_edges bst) spread 0 [] [] [] = Inr r"
      using scan_returns [OF len] by blast
    show ?thesis using assms Inr bst sc
      by (auto simp: precise_complexity_intervals_def Let_def
          split: if_splits sum.splits prod.splits
          dest: spread0_error min_t_start_error make_epoch_error)
  qed
qed

lemma patch_container_error:
  "patch_container s c old new = Inl e \<Longrightarrow> e = TypeError none_index_msg"
  by (auto simp: patch_container_def split: option.splits)

lemma process_spiketrain_error:
  assumes "process_spiketrain cs rs dt iv l idx s = (Some e, s1)"
  shows "e \<noteq> ValueError deletion_msg"
proof (cases "objects s (lists s l ! idx)")
  case Other
  then show ?thesis using assms by (auto simp: process_spiketrain_def Let_def)
next
  case (SpikeTrain st)
  show ?thesis
  proof (cases "np_take cs (map (searchsorted rs) (spike_times st))")
    case (Inl e')
    then show ?thesis using assms SpikeTrain np_take_error [OF Inl]
      by (auto simp: process_spiketrain_def Let_def)
  next
    case (Inr cps)
    then show ?thesis using assms SpikeTrain
      by (auto simp: process_spiketrain_def Let_def
          split: option.splits sum.splits dest!: patch_container_error)
  qed
qed

lemma process_all_error:
  "process_all cs rs dt iv l idxs s = (Some e, s1) \<Longrightarrow> e \<noteq> ValueError deletion_msg"
proof (induction idxs arbitrary: s)
  case Nil
  then show ?case by simp
next
  case (Cons idx idxs)
  obtain r s2 where p: "process_spiketrain cs rs dt iv l idx s = (r, s2)"
    by (cases "process_spiketrain cs rs dt iv l idx s")
  show ?case
  proof (cases r)
    case None
    then show ?thesis using Cons p by simp
  next
    case (Some e')
    then show ?thesis using Cons.prems p process_spiketrain_error [of cs rs dt iv l idx s e' s2]
      by simp
  qed
qed

text \<open>
  Claim C9. With a deletion threshold of 1 or less \<^verbatim>\<open>detect_synchrofacts\<close> raises the
  error about the threshold and leaves the store as it was, whatever its other arguments are
  (also for spike trains that the consistency check would refuse: the threshold is checked
  first, before any interval is computed and before any spike train is touched). Without a
  threshold, and with every threshold of 2 or more, this error is not raised.
\<close>

theorem deletion_threshold_checked_first:
  "(threshold \<le> 1 \<longrightarrow>
      detect_synchrofacts s spiketrains sampling_rate spread (Some threshold) invert_delete
        = (Inl (ValueError deletion_msg), s))
   \<and> (deletion_threshold = None \<or> (\<exists>t. deletion_threshold = Some t \<and> 2 \<le> t) \<longrightarrow>
      fst (detect_synchrofacts s spiketrains sampling_rate spread deletion_threshold invert_delete)
        \<noteq> Inl (ValueError deletion_msg))"
proof (intro conjI impI)
  assume "threshold \<le> 1"
  then show "detect_synchrofacts s spiketrains sampling_rate spread (Some threshold) invert_delete
        = (Inl (ValueError deletion_msg), s)"
    by (simp add: detect_synchrofacts_def)
next
  assume a: "deletion_threshold = None \<or> (\<exists>t. deletion_threshold = Some t \<and> 2 \<le> t)"
  then have ok: "\<not> (case deletion_threshold of None \<Rightarrow> False | Some t \<Rightarrow> t \<le> 1)"
    by auto
  show "fst (detect_synchrofacts s spiketrains sampling_rate spread deletion_threshold invert_delete)
        \<noteq> Inl (ValueError deletion_msg)"
    using ok
    by (auto simp: detect_synchrofacts_def Let_def split: sum.splits prod.splits option.splits
        dest: precise_complexity_intervals_error process_all_error)
qed

theorem deletion_threshold_checked_first_witness:
  "(1::int) \<le> 1
   \<and> detect_synchrofacts
        \<lparr>objects = (\<lambda>r. Other), lists = (\<lambda>r. []), unit_of = (\<lambda>r. None),
           segment_of = (\<lambda>r. None), next_ref = 0\<rparr> 0 1 1 (Some 1) False
       = (Inl (ValueError deletion_msg),
          \<lparr>objects = (\<lambda>r. Other), lists = (\<lambda>r. []), unit_of = (\<lambda>r. None),
             segment_of = (\<lambda>r. None), next_ref = 0\<rparr>)
   \<and> (\<exists>t. Some (2::int) = Some t \<and> 2 \<le> t)
   \<and> fst (detect_synchrofacts
        \<lparr>objects = (\<lambda>r. Other), lists = (\<lambda>r. []), unit_of = (\<lambda>r. None),
           segment_of = (\<lambda>r. None), next_ref = 0\<rparr> 0 1 1 (Some 2) False)
       \<noteq> Inl (ValueError deletion_msg)"
proof -
  have a: "(1::int) \<le> 1" by simp
  have b: "\<exists>t. Some (2::int) = Some t \<and> 2 \<le> t" by simp
  show ?thesis
    using deletion_threshold_checked_first
      [of 1 "\<lparr>objects = (\<lambda>r. Other), lists = (\<lambda>r. []), unit_of = (\<lambda>r. None),
                segment_of = (\<lambda>r. None), next_ref = 0\<rparr>" 0 1 1 False "Some 2"] a b
    by blast
qed

section \<open>Deletion by threshold\<close>

text \<open>
  Claim C4, at an input on which the program fails it. The two spike trains of the worked
  example belong to one segment. When \<^verbatim>\<open>detect_synchrofacts\<close> gets the list of the segment
  itself, with sampling rate 1, spread 0 and threshold 2, the first round of the loop puts the
  new spike train (spikes 4 and 6) into the list, then searches the same list for the old
  one, finds no index and raises a TypeError: the second spike train stays as it was, with
  its spike of complexity 2 and without annotation, while the call without a threshold
  returns. When the call gets a list of its own that holds the same spike trains, it returns
  and leaves in that list and in the list of the segment the two spike trains of the spikes
  with a complexity below 2.
\<close>

theorem deletion_fails_on_container_list:
  "fst (detect_synchrofacts owned_store 2 1 0 (Some 2) False) = Inl (TypeError none_index_msg)
   \<and> map (objects (snd (detect_synchrofacts owned_store 2 1 0 (Some 2) False)))
         (lists (snd (detect_synchrofacts owned_store 2 1 0 (Some 2) False)) 2)
       = [SpikeTrain \<lparr>spike_times = [4, 6], t_start = 0, t_stop = 10,
                        complexity = Some [1, 1]\<rparr>,
          SpikeTrain \<lparr>spike_times = [1, 5, 8], t_start = 0, t_stop = 10,
                        complexity = None\<rparr>]
   \<and> fst (detect_synchrofacts owned_store 2 1 0 None False)
       = Inr \<lparr>ep_times = [0, 7 / 2, 9 / 2, 11 / 2, 15 / 2],
              ep_durations = [3 / 2, 1, 1, 1, 1], ep_complexity = [2, 1, 1, 1, 1]\<rparr>
   \<and> fst (detect_synchrofacts selected_store 2 1 0 (Some 2) False)
       = Inr \<lparr>ep_times = [0, 7 / 2, 9 / 2, 11 / 2, 15 / 2],
              ep_durations = [3 / 2, 1, 1, 1, 1], ep_complexity = [2, 1, 1, 1, 1]\<rparr>
   \<and> map (objects (snd (detect_synchrofacts selected_store 2 1 0 (Some 2) False)))
         (lists (snd (detect_synchrofacts selected_store 2 1 0 (Some 2) False)) 2)
       = [SpikeTrain \<lparr>spike_times = [4, 6], t_start = 0, t_stop = 10,
                        complexity = Some [1, 1]\<rparr>,
          SpikeTrain \<lparr>spike_times = [5, 8], t_start = 0, t_stop = 10,
                        complexity = Some [1, 1]\<rparr>]
   \<and> lists (snd (detect_synchrofacts selected_store 2 1 0 (Some 2) False)) 3
       = lists (snd (detect_synchrofacts selected_store 2 1 0 (Some 2) False)) 2"
  by code_simp

section \<open>The complexity of a spike\<close>

text \<open>
  Claim C10, as amended. Let \<^verbatim>\<open>precise_complexity_intervals\<close> return an epoch for a list of
  spike trains, and let a spike of one of them lie on the grid of the bin edges inside the
  recording: its time is the start time plus a whole number \<open>k\<close> of bin widths, and the bin
  that begins there ends by the stop time. Then some interval of the epoch contains the
  spike: its left edge is at most the spike time and the spike time is strictly less than
  its right edge. Hence the search of the spike time in the right edges, as
  \<^verbatim>\<open>detect_synchrofacts\<close> does it, yields an index that is at most the index of that
  interval and so strictly less than the number of intervals: the lookup of the complexity
  stays in bounds.
\<close>

theorem spike_lookup_in_bounds:
  assumes pci: "precise_complexity_intervals spiketrains sampling_rate spread = Inr ep"
    and st: "SpikeTrain st \<in> set spiketrains" and t: "t \<in> set (spike_times st)"
    and grid: "t = t_start st + real k / sampling_rate"
    and inside: "real (Suc k) \<le> (t_stop st - t_start st) * sampling_rate"
  shows "\<exists>m. m < length (ep_complexity ep) \<and> m < length (ep_times ep)
      \<and> ep_times ep ! m \<le> t
      \<and> t < map2 (+) (ep_times ep) (ep_durations ep) ! m
      \<and> searchsorted (map2 (+) (ep_times ep) (ep_durations ep)) t \<le> m
      \<and> searchsorted (map2 (+) (ep_times ep) (ep_durations ep)) t < length (ep_complexity ep)"
proof -
  define bs where "bs = 1 / sampling_rate"
  define sh where "sh = (1 / 2) / sampling_rate"
  obtain u where chk: "check_consistency_of_spiketrainlist spiketrains None None = Inr u"
    using pci by (cases "check_consistency_of_spiketrainlist spiketrains None None")
      (simp_all add: precise_complexity_intervals_def)
  obtain bst where bst: "BinnedSpikeTrain (spiketrains_of spiketrains) bs = Inr bst"
    using pci chk unfolding bs_def
    by (cases "BinnedSpikeTrain (spiketrains_of spiketrains) (1 / sampling_rate)")
      (simp_all add: precise_complexity_intervals_def)
  let ?bc = "column_sums (bst_num_bins bst) (bst_matrix bst)"
  let ?ed = "bst_bin_edges bst"
  obtain cs ls rs ms where res: "(if spread = 0 then spread0 ?bc ?ed
                                  else scan ?bc ?ed spread 0 [] [] []) = Inr (cs, ls, rs)"
    and me: "make_epoch sh ms cs ls rs = Inr ep"
    using pci chk bst unfolding bs_def sh_def
    by (auto simp: precise_complexity_intervals_def Let_def split: sum.splits if_splits)
  obtain st0 rest where trains: "spiketrains_of spiketrains = st0 # rest"
    and same: "\<forall>st. SpikeTrain st \<in> set spiketrains \<longrightarrow>
                 t_start st = t_start st0 \<and> t_stop st = t_stop st0"
    using checked_spiketrains [OF chk] by blast
  define n where "n = nat \<lfloor>(t_stop st0 - t_start st0) / bs\<rfloor>"
  have bspos: "0 < bs"
    using bst trains by (auto simp: BinnedSpikeTrain_def split: if_splits)
  have bstv: "bst = \<lparr>bst_num_bins = n,
                     bst_bin_edges = map (bin_edge (t_start st0) bs) [0..<Suc n],
                     bst_matrix = map (\<lambda>st. bin_row (t_start st0) bs n (spike_times st))
                                    (st0 # rest)\<rparr>"
    using bst trains unfolding n_def
    by (auto simp: BinnedSpikeTrain_def Let_def split: if_splits simp del: upt_Suc)
  have lenbc: "length ?bc = n" using bstv by (simp add: length_column_sums)
  have lened: "length ?ed = Suc (length ?bc)" using bstv lenbc by simp
  have edge: "?ed ! j = bin_edge (t_start st0) bs j" if "j \<le> n" for j
    using that bstv by (simp del: upt_Suc)
  have rate: "0 < sampling_rate" using bspos by (simp add: bs_def)
  have st0: "t_start st = t_start st0" "t_stop st = t_stop st0" using same st by auto
  have kn: "k < n"
  proof -
    have "real (Suc k) \<le> (t_stop st0 - t_start st0) / bs"
      using inside st0 rate by (simp add: bs_def)
    then have "int (Suc k) \<le> \<lfloor>(t_stop st0 - t_start st0) / bs\<rfloor>" by (simp add: le_floor_iff)
    then show ?thesis unfolding n_def by linarith
  qed
  have tk: "t = bin_edge (t_start st0) bs k"
    using grid st0 by (simp add: bin_edge_def bs_def)
  have tk1: "t < bin_edge (t_start st0) bs (k + 1)"
    using tk bspos by (simp add: bin_edge_def algebra_simps)
  have "st \<in> set (st0 # rest)" using spiketrains_of_mem [OF st] trains by simp
  then have nzk: "?bc ! k \<noteq> 0"
    using bincount_nonzero [of st "st0 # rest" t k n "t_start st0" bs] t kn tk tk1 bstv
    by simp
  have cover: "length cs = length rs \<and> length ls = length rs \<and>
     (\<forall>j<length ?bc. ?bc ! j \<noteq> 0 \<longrightarrow>
        (\<exists>m<length rs. \<exists>L R. L \<le> j \<and> j < R \<and> R \<le> length ?bc \<and>
           ls ! m = ?ed ! L \<and> rs ! m = ?ed ! R))"
  proof (cases "spread = 0")
    case True
    then show ?thesis using res spread0_cover [OF _ lened] by simp
  next
    case False
    then have "scan ?bc ?ed spread 0 [] [] [] = Inr (cs, ls, rs)" using res by simp
    from scan_cover [OF this lened] show ?thesis by simp
  qed
  then obtain m L R where m: "m < length rs" "L \<le> k" "k < R" "R \<le> n"
      "ls ! m = ?ed ! L" "rs ! m = ?ed ! R"
    using nzk kn lenbc by metis
  have lens: "length cs = length rs" "length ls = length rs" using cover by simp_all
  note mk = make_epoch_facts [OF me lens(2)]
  let ?right = "map2 (+) (ep_times ep) (ep_durations ep)"
  have shv: "sh = bs / 2" by (simp add: sh_def bs_def)
  have left: "ep_times ep ! m \<le> t"
  proof -
    have "ep_times ep ! m \<le> ls ! m - sh" using mk(4) [of m] m(1) lens by simp
    also have "ls ! m = bin_edge (t_start st0) bs L" using m(2,5) kn edge by simp
    also have "bin_edge (t_start st0) bs L - sh \<le> bin_edge (t_start st0) bs k"
    proof -
      have "real L * bs \<le> real k * bs"
        using m(2) bspos by (intro mult_right_mono) simp_all
      moreover have "0 < sh" using bspos shv by simp
      ultimately show ?thesis by (simp add: bin_edge_def)
    qed
    finally show ?thesis using tk by simp
  qed
  have right: "t < ?right ! m"
  proof -
    have "?right ! m = rs ! m - sh" using mk(3) m(1) by simp
    also have "rs ! m = bin_edge (t_start st0) bs R" using m(4,6) edge by simp
    finally have r: "?right ! m = bin_edge (t_start st0) bs R - sh" .
    have "real (k + 1) * bs \<le> real R * bs"
      using m(3) bspos by (intro mult_right_mono) simp_all
    then have "bin_edge (t_start st0) bs (k + 1) \<le> bin_edge (t_start st0) bs R"
      by (simp add: bin_edge_def)
    moreover have "t < bin_edge (t_start st0) bs (k + 1) - sh"
      using tk bspos shv by (simp add: bin_edge_def algebra_simps)
    ultimately show ?thesis using r by simp
  qed
  have mlen: "m < length ?right" using mk(3) m(1) by simp
  have ss: "searchsorted ?right t \<le> m"
    using mlen right by (intro searchsorted_le) simp_all
  have "m < length (ep_complexity ep)" "m < length (ep_times ep)"
    using mk(1,2) lens m(1) by simp_all
  then show ?thesis using left right ss by (intro exI [of _ m]) simp
qed

theorem spike_lookup_in_bounds_witness:
  "precise_complexity_intervals
       [SpikeTrain \<lparr>spike_times = [1, 4, 6], t_start = 0, t_stop = 10, complexity = None\<rparr>,
        SpikeTrain \<lparr>spike_times = [1, 5, 8], t_start = 0, t_stop = 10, complexity = None\<rparr>]
       1 1
     = Inr \<lparr>ep_times = [0, 7 / 2, 15 / 2], ep_durations = [3 / 2, 3, 1],
           ep_complexity = [2, 3, 1]\<rparr>
   \<and> (6::real) = t_start \<lparr>spike_times = [1, 4, 6], t_start = 0, t_stop = 10, complexity = None\<rparr> + real 6 / 1
   \<and> real (Suc 6) \<le> (t_stop \<lparr>spike_times = [1, 4, 6], t_start = 0, t_stop = 10, complexity = None\<rparr>
                       - t_start \<lparr>spike_times = [1, 4, 6], t_start = 0, t_stop = 10, complexity = None\<rparr>) * 1
   \<and> (\<exists>m. m < length (ep_complexity \<lparr>ep_times = [0, 7 / 2, 15 / 2], ep_durations = [3 / 2, 3, 1],
           ep_complexity = [2, 3, 1]\<rparr>)
        \<and> m < length (ep_times \<lparr>ep_times = [0, 7 / 2, 15 / 2], ep_durations = [3 / 2, 3, 1],
           ep_complexity = [2, 3, 1]\<rparr>)
        \<and> ep_times \<lparr>ep_times = [0, 7 / 2, 15 / 2], ep_durations = [3 / 2, 3, 1],
           ep_complexity = [2, 3, 1]\<rparr> ! m \<le> 6
        \<and> 6 < map2 (+) (ep_times \<lparr>ep_times = [0, 7 / 2, 15 / 2], ep_durations = [3 / 2, 3, 1],
           ep_complexity = [2, 3, 1]\<rparr>)
                  (ep_durations \<lparr>ep_times = [0, 7 / 2, 15 / 2], ep_durations = [3 / 2, 3, 1],
           ep_complexity = [2, 3, 1]\<rparr>) ! m
        \<and> searchsorted (map2 (+) (ep_times \<lparr>ep_times = [0, 7 / 2, 15 / 2], ep_durations = [3 / 2, 3, 1],
           ep_complexity = [2, 3, 1]\<rparr>)
                  (ep_durations \<lparr>ep_times = [0, 7 / 2, 15 / 2], ep_durations = [3 / 2, 3, 1],
           ep_complexity = [2, 3, 1]\<rparr>)) 6 \<le> m
        \<and> searchsorted (map2 (+) (ep_times \<lparr>ep_times = [0, 7 / 2, 15 / 2], ep_durations = [3 / 2, 3, 1],
           ep_complexity = [2, 3, 1]\<rparr>)
                  (ep_durations \<lparr>ep_times = [0, 7 / 2, 15 / 2], ep_durations = [3 / 2, 3, 1],
           ep_complexity = [2, 3, 1]\<rparr>)) 6
            < length (ep_complexity \<lparr>ep_times = [0, 7 / 2, 15 / 2], ep_durations = [3 / 2, 3, 1],
           ep_complexity = [2, 3, 1]\<rparr>))"
proof -
  let ?st = "\<lparr>spike_times = [1, 4, 6], t_start = 0, t_stop = 10, complexity = None\<rparr>"
  let ?sts = "[SpikeTrain \<lparr>spike_times = [1, 4, 6], t_start = 0, t_stop = 10, complexity = None\<rparr>,
        SpikeTrain \<lparr>spike_times = [1, 5, 8], t_start = 0, t_stop = 10, complexity = None\<rparr>]"
  let ?ep = "\<lparr>ep_times = [0, 7 / 2, 15 / 2], ep_durations = [3 / 2, 3, 1],
           ep_complexity = [2, 3, 1]\<rparr>"
  have a: "precise_complexity_intervals ?sts 1 1 = Inr ?ep"
    by code_simp
  have b: "SpikeTrain ?st \<in> set ?sts"
    by simp
  have c: "(6::real) \<in> set (spike_times ?st)"
    by simp
  have d: "(6::real) = t_start ?st + real 6 / 1"
    by simp
  have e: "real (Suc 6) \<le> (t_stop ?st - t_start ?st) * 1"
    by simp
  show ?thesis
    using spike_lookup_in_bounds [OF a b c d e] a d e by blast
qed

theorem spike_lookup_out_of_bounds:
  "precise_complexity_intervals
     [SpikeTrain \<lparr>spike_times = [1, 10], t_start = 0, t_stop = 21 / 2, complexity = None\<rparr>]
     1 0
     = Inr \<lparr>ep_times = [0], ep_durations = [3 / 2], ep_complexity = [1]\<rparr>
   \<and> searchsorted (map2 (+) [0] [3 / 2]) 10 = length [1 :: nat]
   \<and> np_take [1 :: nat] [searchsorted (map2 (+) [0] [3 / 2]) 10]
       = Inl (IndexError ''index out of bounds'')
   \<and> precise_complexity_intervals
     [SpikeTrain \<lparr>spike_times = [1], t_start = 1 / 4, t_stop = 41 / 4, complexity = None\<rparr>]
     1 0
     = Inr \<lparr>ep_times = [- (1 / 4)], ep_durations = [1], ep_complexity = [1]\<rparr>
   \<and> searchsorted (map2 (+) [- (1 / 4)] [1]) 1 = length [1 :: nat]
   \<and> np_take [1 :: nat] [searchsorted (map2 (+) [- (1 / 4)] [1]) 1]
       = Inl (IndexError ''index out of bounds'')"
  by code_simp

end
